theory Spec2Isabelle
  imports Main "HOL-Library.Sublist"
begin

section \<open>Values of the program\<close>

text \<open>
  The model follows \<^verbatim>\<open>twitter.go\<close>. Instants of \<^verbatim>\<open>time.Time\<close> and spans of
  \<^verbatim>\<open>time.Duration\<close> are integers; a channel made by \<^verbatim>\<open>make(chan ...)\<close> is known by
  the number it got when it was made; the pointer in a query's \<^verbatim>\<open>data\<close> field is an
  address of the store into which the JSON decoder writes.
\<close>

type_synonym Time = int
type_synonym Duration = int
type_synonym Values = "(string \<times> string list) list"
type_synonym chan = nat
type_synonym ref = nat

text \<open>\<^verbatim>\<open>oauth.Credentials\<close> and \<^verbatim>\<open>oauth.Client\<close> of the go-oauth library.\<close>

record Credentials =
  Token :: string
  Secret :: string

record Client =
  Client_Credentials :: Credentials
  TemporaryCredentialRequestURI :: string
  ResourceOwnerAuthorizationURI :: string
  TokenRequestURI :: string

text \<open>The fields of \<^verbatim>\<open>http.Response\<close> that the program reads.\<close>

record Response =
  StatusCode :: int
  Header :: "(string \<times> string) list"
  Body :: string

text \<open>
  Modelled from the spec: \<^verbatim>\<open>ApiError\<close> and \<^verbatim>\<open>newApiError\<close> are declared in another
  file of the package, not in \<^verbatim>\<open>twitter.go\<close>. Section 4.2 item 4 of the specification says
  that on a non-200 status an API-error value is constructed "carrying the status code and enough
  of the response body/headers" to classify it later.
\<close>

record ApiError =
  ApiError_StatusCode :: int
  ApiError_Header :: "(string \<times> string) list"
  ApiError_Body :: string

definition newApiError :: "Response \<Rightarrow> ApiError" where
  "newApiError resp =
     \<lparr>ApiError_StatusCode = StatusCode resp,
      ApiError_Header = Header resp,
      ApiError_Body = Body resp\<rparr>"

text \<open>
  The dynamic types an \<^verbatim>\<open>error\<close> value of this program can have: a \<^verbatim>\<open>*ApiError\<close>
  (the only type for which the assertion \<^verbatim>\<open>err.(*ApiError)\<close> succeeds), the value of
  \<^verbatim>\<open>fmt.Errorf\<close>, an error of the signing transport, and an error of the JSON decoder.
\<close>

datatype error =
    ApiError_ptr ApiError
  | Errorf string
  | TransportError string
  | DecodeError string

text \<open>The constants \<^verbatim>\<open>_GET\<close> and \<^verbatim>\<open>_POST\<close> (\<^verbatim>\<open>iota\<close> counts from 0).\<close>

definition const_GET :: int where "const_GET = 0"
definition const_POST :: int where "const_POST = 1"

record query =
  url :: string
  form :: Values
  data :: ref
  "method" :: int
  response_ch :: chan

record response =
  response_data :: ref
  response_err :: "error option"

text \<open>
  Modelled from the spec: the bucket is the type \<^verbatim>\<open>tokenbucket.Bucket\<close> of a library
  outside the package. Section 3 gives its attributes (refill interval, capacity, current
  token count); section 4.1 gives \<^verbatim>\<open>acquire\<close> (deduct when enough tokens are there, wait
  otherwise), \<^verbatim>\<open>drain\<close> (tokens to 0), \<^verbatim>\<open>setRate\<close> and \<^verbatim>\<open>getRate\<close>; the first
  scenario of section 8 has a new bucket of capacity 5 serve 5 requests at once, so a new bucket
  is full.
\<close>

record Bucket =
  rate :: Duration
  capacity :: int
  tokens :: int

definition NewBucket :: "Duration \<Rightarrow> int \<Rightarrow> Bucket" where
  "NewBucket r n = \<lparr>rate = r, capacity = n, tokens = n\<rparr>"

definition SpendToken :: "int \<Rightarrow> Bucket \<Rightarrow> Bucket option" where
  "SpendToken n b = (if n \<le> tokens b then Some (b\<lparr>tokens := tokens b - n\<rparr>) else None)"

definition Drain :: "Bucket \<Rightarrow> Bucket" where
  "Drain b = b\<lparr>tokens := 0\<rparr>"

definition SetRate :: "Duration \<Rightarrow> Bucket \<Rightarrow> Bucket" where
  "SetRate t b = b\<lparr>rate := t\<rparr>"

definition GetRate :: "Bucket \<Rightarrow> Duration" where
  "GetRate b = rate b"

definition refill :: "Bucket \<Rightarrow> Bucket" where
  "refill b = b\<lparr>tokens := min (capacity b) (tokens b + 1)\<rparr>"

text \<open>
  \<^verbatim>\<open>TwitterApi\<close>: the \<^verbatim>\<open>bucket\<close> field is a pointer, \<^verbatim>\<open>nil\<close> or the address of a
  bucket in the heap of the process. Two pointers to the same bucket see the same tokens; a
  bucket that the client no longer points to still exists for a goroutine that holds its address.
\<close>

type_synonym bucket_ptr = nat

record TwitterApi =
  Credentials :: Credentials
  queryQueue :: chan
  bucket :: "bucket_ptr option"

section \<open>The process\<close>

text \<open>
  One signed call as the transport sees it: the verb, the process-wide client that signs, the
  credentials of the user, the address and the form.
\<close>

datatype verb = GET | POST

record call =
  call_verb :: verb
  call_client :: Client
  call_user :: Credentials
  call_url :: string
  call_form :: Values

text \<open>
  What lies outside the program: the signed transport (\<^verbatim>\<open>oauthClient.Get\<close> and
  \<^verbatim>\<open>oauthClient.Post\<close> with the server behind them), whose answer may depend on the calls
  made before; the JSON decoder, which is given the body and the present content of the target
  and returns its error and the new content; and \<^verbatim>\<open>RateLimitCheck\<close>, a method of
  \<^verbatim>\<open>ApiError\<close> declared in another file of the package, which is a parameter here.
\<close>

record 'v world =
  transport :: "call list \<Rightarrow> call \<Rightarrow> string + Response"
  Decode :: "string \<Rightarrow> 'v \<Rightarrow> string option \<times> 'v"
  RateLimitCheck :: "ApiError \<Rightarrow> bool \<times> Time"

text \<open>
  Control points of the goroutine that runs \<^verbatim>\<open>throttledQuery\<close>, with the local variables
  that are live there: \<open>L_recv\<close> is the receive of \<^verbatim>\<open>for q := range c.queryQueue\<close>;
  \<open>L_gate\<close> the test \<^verbatim>\<open>c.bucket != nil\<close> with, when it succeeds, the call
  \<^verbatim>\<open>c.bucket.SpendToken(1)\<close>; \<open>L_spend\<close> the receive on the channel that this call has
  returned, which belongs to the bucket of the call, whatever \<^verbatim>\<open>c.bucket\<close> becomes
  meanwhile; \<open>L_exec\<close> the call of \<^verbatim>\<open>execQuery\<close> and the tests of its error; \<open>L_requeue\<close> the send
  \<^verbatim>\<open>c.QueryQueue <- q\<close> (the struct has no field of that name; it is read as
  \<^verbatim>\<open>queryQueue\<close>, the only queue there is); \<open>L_sleep\<close> the wait on
  \<^verbatim>\<open>time.After\<close>; \<open>L_drain\<close> the call \<^verbatim>\<open>c.bucket.Drain()\<close>; \<open>L_deliver\<close> the send
  on \<^verbatim>\<open>response_ch\<close>.
\<close>

datatype pc =
    L_recv
  | L_gate query
  | L_spend query bucket_ptr
  | L_exec query
  | L_requeue query Time
  | L_sleep Time
  | L_drain
  | L_deliver query "error option"

text \<open>
  Modelled from the spec: the public operations that submit a query are in other files of the
  package. By section 4.4 each one builds a query with a fresh
  private result channel, sends it into the queue of its client, then blocks receiving from the
  private channel.
\<close>

datatype caller =
    Submitting nat query
  | Waiting query
  | Returned response

datatype event =
    Enqueued nat query
  | Received nat query
  | Spent nat
  | Executed nat query "error option"
  | Requeued nat query
  | Slept nat
  | Drained nat
  | Delivered nat query response

text \<open>
  The state of the process: the package variable \<^verbatim>\<open>oauthClient\<close>; every \<^verbatim>\<open>TwitterApi\<close>
  allocated so far (a \<^verbatim>\<open>*TwitterApi\<close> is an index of \<^verbatim>\<open>apis\<close>); the control point of the
  goroutine started for each of them; the buckets allocated so far, by address, and their number;
  the goroutines of the callers; the number of channels made;
  the clock; the signed calls handed to the transport; the store behind the \<^verbatim>\<open>data\<close>
  pointers; what the callers have put into the queues and what the dispatchers have done, oldest
  first; and whether a goroutine has panicked, which ends a Go process.
\<close>

record 'v state =
  oauthClient :: Client
  apis :: "TwitterApi list"
  disp :: "pc list"
  buckets :: "bucket_ptr \<Rightarrow> Bucket"
  nbucket :: nat
  callers :: "caller list"
  nchan :: nat
  clock :: Time
  calls :: "call list"
  store :: "ref \<Rightarrow> 'v"
  trace :: "event list"
  crashed :: bool

definition boot :: "(ref \<Rightarrow> 'v) \<Rightarrow> 'v state" where
  "boot st =
     \<lparr>oauthClient =
        \<lparr>Client_Credentials = \<lparr>Token = [], Secret = []\<rparr>,
         TemporaryCredentialRequestURI = ''http://api.twitter.com/oauth/request_token'',
         ResourceOwnerAuthorizationURI = ''http://api.twitter.com/oauth/authenticate'',
         TokenRequestURI = ''http://api.twitter.com/oauth/access_token''\<rparr>,
      apis = [], disp = [], buckets = (\<lambda>p. NewBucket 0 0), nbucket = 0, callers = [],
      nchan = 0, clock = 0, calls = [],
      store = st, trace = [], crashed = False\<rparr>"

section \<open>The functions of the package\<close>

text \<open>
  \<^verbatim>\<open>NewTwitterApi\<close>: makes the queue, allocates the client with a \<^verbatim>\<open>nil\<close> bucket and
  starts one goroutine, which first waits at the head of its loop. The result is the pointer.
\<close>

definition NewTwitterApi :: "string \<Rightarrow> string \<Rightarrow> 'v state \<Rightarrow> nat \<times> 'v state" where
  "NewTwitterApi access_token access_token_secret s =
     (let queue = nchan s;
          c = \<lparr>Credentials = \<lparr>Token = access_token, Secret = access_token_secret\<rparr>,
               queryQueue = queue, bucket = None\<rparr>
      in (length (apis s),
          s\<lparr>nchan := Suc (nchan s), apis := apis s @ [c], disp := disp s @ [L_recv]\<rparr>))"

definition SetConsumerKey :: "string \<Rightarrow> 'v state \<Rightarrow> 'v state" where
  "SetConsumerKey consumer_key s =
     s\<lparr>oauthClient := (oauthClient s)
         \<lparr>Client_Credentials := (Client_Credentials (oauthClient s))\<lparr>Token := consumer_key\<rparr>\<rparr>\<rparr>"

definition SetConsumerSecret :: "string \<Rightarrow> 'v state \<Rightarrow> 'v state" where
  "SetConsumerSecret consumer_secret s =
     s\<lparr>oauthClient := (oauthClient s)
         \<lparr>Client_Credentials := (Client_Credentials (oauthClient s))\<lparr>Secret := consumer_secret\<rparr>\<rparr>\<rparr>"

text \<open>
  \<^verbatim>\<open>EnableRateLimiting\<close> on the client at address \<open>i\<close>: a new bucket is allocated and the
  field is set to its address. \<^verbatim>\<open>DisableRateLimiting\<close> sets the field to \<^verbatim>\<open>nil\<close>; the
  bucket it pointed to is not touched.
\<close>

definition EnableRateLimiting :: "Duration \<Rightarrow> int \<Rightarrow> nat \<Rightarrow> 'v state \<Rightarrow> 'v state" where
  "EnableRateLimiting r bufferSize i s =
     s\<lparr>buckets := (buckets s)(nbucket s := NewBucket r bufferSize),
       nbucket := Suc (nbucket s),
       apis := (apis s)[i := (apis s ! i)\<lparr>bucket := Some (nbucket s)\<rparr>]\<rparr>"

definition DisableRateLimiting :: "TwitterApi \<Rightarrow> TwitterApi" where
  "DisableRateLimiting c = c\<lparr>bucket := None\<rparr>"

text \<open>
  \<^verbatim>\<open>SetDelay\<close> and \<^verbatim>\<open>GetDelay\<close> call a method of \<^verbatim>\<open>c.bucket\<close> with no test of the
  pointer. The methods write and read the rate held in the bucket, so on a \<^verbatim>\<open>nil\<close> pointer
  they dereference it and the goroutine panics. The last argument is the heap of buckets.
\<close>

datatype panic = NilPointerDereference

definition SetDelay ::
  "Duration \<Rightarrow> TwitterApi \<Rightarrow> (bucket_ptr \<Rightarrow> Bucket) \<Rightarrow> panic + (bucket_ptr \<Rightarrow> Bucket)" where
  "SetDelay t c bs =
     (case bucket c of
        None \<Rightarrow> Inl NilPointerDereference
      | Some p \<Rightarrow> Inr (bs(p := SetRate t (bs p))))"

definition GetDelay :: "TwitterApi \<Rightarrow> (bucket_ptr \<Rightarrow> Bucket) \<Rightarrow> panic + Duration" where
  "GetDelay c bs =
     (case bucket c of
        None \<Rightarrow> Inl NilPointerDereference
      | Some p \<Rightarrow> Inr (GetRate (bs p)))"

text \<open>
  \<^verbatim>\<open>decodeResponse\<close> returns the error (\<^verbatim>\<open>None\<close> is \<^verbatim>\<open>nil\<close>) and the state, in which
  the decoder has written the target.
\<close>

definition decodeResponse ::
  "'v world \<Rightarrow> Response \<Rightarrow> ref \<Rightarrow> 'v state \<Rightarrow> error option \<times> 'v state" where
  "decodeResponse w resp d s =
     (if StatusCode resp \<noteq> 200 then (Some (ApiError_ptr (newApiError resp)), s)
      else (case Decode w (Body resp) (store s d) of
              (e, v) \<Rightarrow> (map_option DecodeError e, s\<lparr>store := (store s)(d := v)\<rparr>)))"

definition apiGet ::
  "'v world \<Rightarrow> TwitterApi \<Rightarrow> string \<Rightarrow> Values \<Rightarrow> ref \<Rightarrow> 'v state \<Rightarrow> error option \<times> 'v state" where
  "apiGet w c urlStr fm d s =
     (let cl = \<lparr>call_verb = GET, call_client = oauthClient s, call_user = Credentials c,
                call_url = urlStr, call_form = fm\<rparr>;
          s1 = s\<lparr>calls := calls s @ [cl]\<rparr>
      in case transport w (calls s) cl of
           Inl e \<Rightarrow> (Some (TransportError e), s1)
         | Inr resp \<Rightarrow> decodeResponse w resp d s1)"

definition apiPost ::
  "'v world \<Rightarrow> TwitterApi \<Rightarrow> string \<Rightarrow> Values \<Rightarrow> ref \<Rightarrow> 'v state \<Rightarrow> error option \<times> 'v state" where
  "apiPost w c urlStr fm d s =
     (let cl = \<lparr>call_verb = POST, call_client = oauthClient s, call_user = Credentials c,
                call_url = urlStr, call_form = fm\<rparr>;
          s1 = s\<lparr>calls := calls s @ [cl]\<rparr>
      in case transport w (calls s) cl of
           Inl e \<Rightarrow> (Some (TransportError e), s1)
         | Inr resp \<Rightarrow> decodeResponse w resp d s1)"

definition execQuery ::
  "'v world \<Rightarrow> TwitterApi \<Rightarrow> string \<Rightarrow> Values \<Rightarrow> ref \<Rightarrow> int \<Rightarrow> 'v state
     \<Rightarrow> error option \<times> 'v state" where
  "execQuery w c urlStr fm d m s =
     (if m = const_GET then apiGet w c urlStr fm d s
      else if m = const_POST then apiPost w c urlStr fm d s
      else (Some (Errorf ''HTTP method not yet supported''), s))"

section \<open>The dispatcher\<close>

text \<open>
  What \<^verbatim>\<open>throttledQuery\<close> does with the error of \<^verbatim>\<open>execQuery\<close> (the nested
  \<^verbatim>\<open>if\<close> after the call): the control point it goes to next. The \<^verbatim>\<open>else\<close> that sends
  on \<^verbatim>\<open>response_ch\<close> belongs to \<^verbatim>\<open>if err != nil\<close>.
\<close>

definition after_exec :: "'v world \<Rightarrow> query \<Rightarrow> error option \<Rightarrow> pc" where
  "after_exec w q err =
     (case err of
        Some e \<Rightarrow>
          (case e of
             ApiError_ptr apiErr \<Rightarrow>
               (case RateLimitCheck w apiErr of
                  (isRateLimitError, nextWindow) \<Rightarrow>
                    if isRateLimitError then L_requeue q nextWindow else L_recv)
           | _ \<Rightarrow> L_recv)
      | None \<Rightarrow> L_deliver q err)"

text \<open>
  A step that the goroutine of client \<open>i\<close> takes alone. \<^verbatim>\<open>None\<close>: it cannot move by
  itself (it waits on a channel, for a token or for the clock). At the gate the field
  \<^verbatim>\<open>c.bucket\<close> is read: when it is \<^verbatim>\<open>nil\<close> the dispatcher goes on to execute; otherwise
  \<^verbatim>\<open>SpendToken(1)\<close> is called on the bucket it points to (the test and the call are one step)
  and the dispatcher waits for the token of that bucket. The sleep of
  \<^verbatim>\<open>time.After(nextWindow.Sub(time.Now()))\<close> ends once the clock has reached
  \<^verbatim>\<open>nextWindow\<close>. \<^verbatim>\<open>c.bucket.Drain()\<close> has no test of the pointer; emptying a bucket
  reads it, so on \<^verbatim>\<open>nil\<close> the goroutine panics.
\<close>

definition throttledQuery_step :: "'v world \<Rightarrow> nat \<Rightarrow> 'v state \<Rightarrow> 'v state option" where
  "throttledQuery_step w i s =
     (if crashed s \<or> \<not> i < length (apis s) \<or> \<not> i < length (disp s) then None
      else
        let c = apis s ! i in
        case disp s ! i of
          L_recv \<Rightarrow> None
        | L_gate q \<Rightarrow>
            (case bucket c of
               None \<Rightarrow> Some (s\<lparr>disp := (disp s)[i := L_exec q]\<rparr>)
             | Some p \<Rightarrow> Some (s\<lparr>disp := (disp s)[i := L_spend q p]\<rparr>))
        | L_spend q p \<Rightarrow>
            (case SpendToken 1 (buckets s p) of
               None \<Rightarrow> None
             | Some b' \<Rightarrow>
                 Some (s\<lparr>buckets := (buckets s)(p := b'),
                         disp := (disp s)[i := L_exec q],
                         trace := trace s @ [Spent i]\<rparr>))
        | L_exec q \<Rightarrow>
            (case execQuery w c (url q) (form q) (data q) (method q) s of
               (err, s1) \<Rightarrow>
                 Some (s1\<lparr>disp := (disp s1)[i := after_exec w q err],
                          trace := trace s1 @ [Executed i q err]\<rparr>))
        | L_requeue q nextWindow \<Rightarrow> None
        | L_sleep nextWindow \<Rightarrow>
            if nextWindow \<le> clock s
            then Some (s\<lparr>disp := (disp s)[i := L_drain], trace := trace s @ [Slept i]\<rparr>)
            else None
        | L_drain \<Rightarrow>
            (case bucket c of
               None \<Rightarrow> Some (s\<lparr>crashed := True\<rparr>)
             | Some p \<Rightarrow>
                 Some (s\<lparr>buckets := (buckets s)(p := Drain (buckets s p)),
                         disp := (disp s)[i := L_recv],
                         trace := trace s @ [Drained i]\<rparr>))
        | L_deliver q err \<Rightarrow> None)"

section \<open>Channels\<close>

text \<open>
  \<^verbatim>\<open>make(chan query)\<close> has no capacity, so the queue holds nothing: a send completes only
  together with a receive of another goroutine on the same channel. What a goroutine offers at
  its control point:
\<close>

datatype offer =
    SendQ chan query
  | RecvQ chan
  | SendR chan response
  | RecvR chan
  | Quiet

datatype gid = D nat | U nat

definition disp_offer :: "TwitterApi \<Rightarrow> pc \<Rightarrow> offer" where
  "disp_offer c p =
     (case p of
        L_recv \<Rightarrow> RecvQ (queryQueue c)
      | L_requeue q nextWindow \<Rightarrow> SendQ (queryQueue c) q
      | L_deliver q err \<Rightarrow> SendR (response_ch q) \<lparr>response_data = data q, response_err = err\<rparr>
      | _ \<Rightarrow> Quiet)"

definition caller_offer :: "TwitterApi list \<Rightarrow> caller \<Rightarrow> offer" where
  "caller_offer cs u =
     (case u of
        Submitting i q \<Rightarrow> if i < length cs then SendQ (queryQueue (cs ! i)) q else Quiet
      | Waiting q \<Rightarrow> RecvR (response_ch q)
      | Returned r \<Rightarrow> Quiet)"

definition offer_of :: "'v state \<Rightarrow> gid \<Rightarrow> offer" where
  "offer_of s g =
     (case g of
        D i \<Rightarrow>
          if i < length (apis s) \<and> i < length (disp s)
          then disp_offer (apis s ! i) (disp s ! i) else Quiet
      | U j \<Rightarrow>
          if j < length (callers s) then caller_offer (apis s) (callers s ! j) else Quiet)"

text \<open>The goroutine after its send has completed.\<close>

definition sent :: "gid \<Rightarrow> 'v state \<Rightarrow> 'v state" where
  "sent g s =
     (case g of
        D i \<Rightarrow>
          (case disp s ! i of
             L_requeue q nextWindow \<Rightarrow>
               s\<lparr>disp := (disp s)[i := L_sleep nextWindow], trace := trace s @ [Requeued i q]\<rparr>
           | L_deliver q err \<Rightarrow>
               s\<lparr>disp := (disp s)[i := L_recv],
                 trace := trace s @
                   [Delivered i q \<lparr>response_data = data q, response_err = err\<rparr>]\<rparr>
           | _ \<Rightarrow> s)
      | U j \<Rightarrow>
          (case callers s ! j of
             Submitting i q \<Rightarrow>
               s\<lparr>callers := (callers s)[j := Waiting q], trace := trace s @ [Enqueued i q]\<rparr>
           | _ \<Rightarrow> s))"

text \<open>The goroutine after its receive has completed.\<close>

definition took_query :: "gid \<Rightarrow> query \<Rightarrow> 'v state \<Rightarrow> 'v state" where
  "took_query g q s =
     (case g of
        D i \<Rightarrow> s\<lparr>disp := (disp s)[i := L_gate q], trace := trace s @ [Received i q]\<rparr>
      | U j \<Rightarrow> s)"

definition took_response :: "gid \<Rightarrow> response \<Rightarrow> 'v state \<Rightarrow> 'v state" where
  "took_response g r s =
     (case g of
        D i \<Rightarrow> s
      | U j \<Rightarrow> s\<lparr>callers := (callers s)[j := Returned r]\<rparr>)"

definition sync :: "gid \<Rightarrow> gid \<Rightarrow> 'v state \<Rightarrow> 'v state option" where
  "sync g h s =
     (if crashed s \<or> g = h then None
      else
        case (offer_of s g, offer_of s h) of
          (SendQ ch q, RecvQ ch') \<Rightarrow>
            if ch = ch' then Some (took_query h q (sent g s)) else None
        | (SendR ch r, RecvR ch') \<Rightarrow>
            if ch = ch' then Some (took_response h r (sent g s)) else None
        | _ \<Rightarrow> None)"

section \<open>Executions\<close>

text \<open>
  What can happen next in the process: a call of one of the package's functions by some
  goroutine; a public operation started on client \<open>i\<close> by a new goroutine, which makes the
  result channel and the query (section 4.4 of the specification); a communication of two
  goroutines; a step of a dispatcher; the clock; and a token regenerated in the bucket at address
  \<open>p\<close> (every bucket regenerates, pointed to or not). A call of \<^verbatim>\<open>SetDelay\<close> that panics ends the process.
\<close>

datatype label =
    New string string
  | SetKey string
  | SetSecret string
  | Enable nat Duration int
  | Disable nat
  | Delay nat Duration
  | Request nat string Values ref int
  | Sync gid gid
  | Tau nat
  | Tick
  | Refill nat

definition step :: "'v world \<Rightarrow> label \<Rightarrow> 'v state \<Rightarrow> 'v state option" where
  "step w l s =
     (if crashed s then None
      else
        case l of
          New access_token access_token_secret \<Rightarrow>
            Some (snd (NewTwitterApi access_token access_token_secret s))
        | SetKey k \<Rightarrow> Some (SetConsumerKey k s)
        | SetSecret k \<Rightarrow> Some (SetConsumerSecret k s)
        | Enable i r n \<Rightarrow>
            if i < length (apis s) then Some (EnableRateLimiting r n i s) else None
        | Disable i \<Rightarrow>
            if i < length (apis s)
            then Some (s\<lparr>apis := (apis s)[i := DisableRateLimiting (apis s ! i)]\<rparr>)
            else None
        | Delay i t \<Rightarrow>
            if i < length (apis s)
            then (case SetDelay t (apis s ! i) (buckets s) of
                    Inl e \<Rightarrow> Some (s\<lparr>crashed := True\<rparr>)
                  | Inr bs \<Rightarrow> Some (s\<lparr>buckets := bs\<rparr>))
            else None
        | Request i u f d m \<Rightarrow>
            if i < length (apis s)
            then Some (s\<lparr>nchan := Suc (nchan s),
                         callers := callers s @
                           [Submitting i \<lparr>url = u, form = f, data = d, method = m,
                                          response_ch = nchan s\<rparr>]\<rparr>)
            else None
        | Sync g h \<Rightarrow> sync g h s
        | Tau i \<Rightarrow> throttledQuery_step w i s
        | Tick \<Rightarrow> Some (s\<lparr>clock := clock s + 1\<rparr>)
        | Refill p \<Rightarrow>
            if p < nbucket s then Some (s\<lparr>buckets := (buckets s)(p := refill (buckets s p))\<rparr>)
            else None)"

text \<open>A schedule is a list of labels; a label that cannot happen is passed over.\<close>

fun run :: "'v world \<Rightarrow> label list \<Rightarrow> 'v state \<Rightarrow> 'v state" where
  "run w [] s = s"
| "run w (l # ls) s = (case step w l s of None \<Rightarrow> run w ls s | Some s' \<Rightarrow> run w ls s')"

text \<open>
  What callers have put into the queue of client \<open>i\<close>, and what its dispatcher has received,
  executed and delivered, oldest first; \<open>answered\<close> are the queries whose execution returned a
  nil error, and \<open>results_on ch\<close> is what has been sent on result channel \<open>ch\<close>.
\<close>

definition enqueued :: "nat \<Rightarrow> event list \<Rightarrow> query list" where
  "enqueued i es =
     concat (map (\<lambda>e. case e of Enqueued j q \<Rightarrow> if j = i then [q] else [] | _ \<Rightarrow> []) es)"

definition received :: "nat \<Rightarrow> event list \<Rightarrow> query list" where
  "received i es =
     concat (map (\<lambda>e. case e of Received j q \<Rightarrow> if j = i then [q] else [] | _ \<Rightarrow> []) es)"

definition executed :: "nat \<Rightarrow> event list \<Rightarrow> query list" where
  "executed i es =
     concat (map (\<lambda>e. case e of Executed j q err \<Rightarrow> if j = i then [q] else [] | _ \<Rightarrow> []) es)"

definition delivered :: "nat \<Rightarrow> event list \<Rightarrow> query list" where
  "delivered i es =
     concat (map (\<lambda>e. case e of Delivered j q r \<Rightarrow> if j = i then [q] else [] | _ \<Rightarrow> []) es)"

definition answered :: "nat \<Rightarrow> event list \<Rightarrow> query list" where
  "answered i es =
     concat (map (\<lambda>e. case e of Executed j q err \<Rightarrow> if j = i \<and> err = None then [q] else []
                             | _ \<Rightarrow> []) es)"

definition results_on :: "chan \<Rightarrow> event list \<Rightarrow> response list" where
  "results_on ch es =
     concat (map (\<lambda>e. case e of Delivered j q r \<Rightarrow> if response_ch q = ch then [r] else []
                             | _ \<Rightarrow> []) es)"

definition spent :: "nat \<Rightarrow> event list \<Rightarrow> nat" where
  "spent i es = length (filter (\<lambda>e. e = Spent i) es)"

text \<open>
  The signed calls that the executed queries stand for: verb, address and form of every executed
  query with a supported method.
\<close>

definition sent_out :: "event list \<Rightarrow> (verb \<times> string \<times> Values) list" where
  "sent_out es =
     concat (map (\<lambda>e. case e of
                           Executed j q err \<Rightarrow>
                             if method q = const_GET then [(GET, url q, form q)]
                             else if method q = const_POST then [(POST, url q, form q)]
                             else []
                         | _ \<Rightarrow> []) es)"

section \<open>Invariants of executions\<close>

text \<open>
  Every client has its goroutine, no two clients share a queue, and every queue was made before
  the next channel to be made.
\<close>

definition queues :: "'v state \<Rightarrow> chan list" where
  "queues s = map queryQueue (apis s)"

definition wf :: "'v state \<Rightarrow> bool" where
  "wf s = (length (disp s) = length (apis s) \<and> distinct (queues s)
           \<and> list_all (\<lambda>ch. ch < nchan s) (queues s))"

definition pc_of :: "'v state \<Rightarrow> nat \<Rightarrow> pc" where
  "pc_of s i = (if i < length (disp s) then disp s ! i else L_recv)"

text \<open>
  How the control point of the dispatcher of client \<open>i\<close> and the events of that client fit
  together.
\<close>

definition fifo_inv :: "'v state \<Rightarrow> nat \<Rightarrow> bool" where
  "fifo_inv s i =
     (let R = received i (trace s); E = executed i (trace s); Dl = delivered i (trace s) in
      case pc_of s i of
        L_recv \<Rightarrow> E = R \<and> subseq Dl E
      | L_gate q \<Rightarrow> R = E @ [q] \<and> subseq Dl E
      | L_spend q p \<Rightarrow> R = E @ [q] \<and> subseq Dl E
      | L_exec q \<Rightarrow> R = E @ [q] \<and> subseq Dl E
      | L_requeue q nextWindow \<Rightarrow> E = R \<and> subseq Dl E
      | L_sleep nextWindow \<Rightarrow> E = R \<and> subseq Dl E
      | L_drain \<Rightarrow> E = R \<and> subseq Dl E
      | L_deliver q err \<Rightarrow> E = R \<and> E \<noteq> [] \<and> last E = q \<and> subseq Dl (butlast E))"

text \<open>
  How the control point of the dispatcher of client \<open>i\<close> and the results it has sent fit
  together.
\<close>

definition deliver_inv :: "'v state \<Rightarrow> nat \<Rightarrow> bool" where
  "deliver_inv s i =
     (case pc_of s i of
        L_deliver q err \<Rightarrow> err = None \<and> answered i (trace s) = delivered i (trace s) @ [q]
      | _ \<Rightarrow> delivered i (trace s) = answered i (trace s))"

section \<open>A small world for running the program\<close>

text \<open>
  A server that answers by the address alone: \<^verbatim>\<open>/ok\<close> with 200 and a body that decodes,
  \<^verbatim>\<open>/bad\<close> with 200 and a body that does not, \<^verbatim>\<open>/limit\<close> with 429 (a rate-limit
  rejection that resets at instant 100), \<^verbatim>\<open>/missing\<close> with 404; any other address cannot
  be reached. Decoded values are strings.
\<close>

definition demo_transport :: "call list \<Rightarrow> call \<Rightarrow> string + Response" where
  "demo_transport h cl =
     (if call_url cl = ''/ok'' then Inr \<lparr>StatusCode = 200, Header = [], Body = ''{}''\<rparr>
      else if call_url cl = ''/bad'' then Inr \<lparr>StatusCode = 200, Header = [], Body = ''{''\<rparr>
      else if call_url cl = ''/limit''
        then Inr \<lparr>StatusCode = 429, Header = [(''X-Rate-Limit-Reset'', ''100'')], Body = []\<rparr>
      else if call_url cl = ''/missing'' then Inr \<lparr>StatusCode = 404, Header = [], Body = []\<rparr>
      else Inl ''no route to host'')"

definition demo_Decode :: "string \<Rightarrow> string \<Rightarrow> string option \<times> string" where
  "demo_Decode b old = (if b = ''{}'' then (None, b) else (Some ''unexpected end of JSON input'', old))"

definition demo_RateLimitCheck :: "ApiError \<Rightarrow> bool \<times> Time" where
  "demo_RateLimitCheck a = (if ApiError_StatusCode a = 429 then (True, 100) else (False, 0))"

definition demo :: "string world" where
  "demo = \<lparr>transport = demo_transport, Decode = demo_Decode, RateLimitCheck = demo_RateLimitCheck\<rparr>"

definition demo_boot :: "string state" where
  "demo_boot = boot (\<lambda>r. [])"

section \<open>Runs of the small world and further notions\<close>

text \<open>
  Queries and schedules that are run below: a pass of one query that is rate-limited, of one that
  the transport cannot send, of one answered with 404, of one with a method that is neither
  \<^verbatim>\<open>_GET\<close> nor \<^verbatim>\<open>_POST\<close>; two calls made one after the other; a call that is
  answered followed by one whose body does not decode; a schedule up to the gate,
  without and with a bucket. \<open>forgotten ch\<close> says that result channel \<open>ch\<close> exists, that no
  dispatcher and no submitting caller holds a query with it, and that nothing was written to it.
\<close>

definition call_sig :: "call \<Rightarrow> verb \<times> string \<times> Values" where
  "call_sig cl = (call_verb cl, call_url cl, call_form cl)"

definition limit_query :: query where
  "limit_query = \<lparr>url = ''/limit'', form = [], data = 0, method = const_GET, response_ch = 1\<rparr>"

definition limit_pass :: "label list" where
  "limit_pass =
     [New ''token'' ''secret'', Request 0 ''/limit'' [] 0 const_GET, Sync (U 0) (D 0), Tau 0, Tau 0]"

definition lost_query :: query where
  "lost_query = \<lparr>url = ''/nowhere'', form = [], data = 0, method = const_GET, response_ch = 1\<rparr>"

definition lost_pass :: "label list" where
  "lost_pass =
     [New ''token'' ''secret'', Request 0 ''/nowhere'' [] 0 const_GET, Sync (U 0) (D 0), Tau 0,
      Tau 0]"

definition missing_query :: query where
  "missing_query = \<lparr>url = ''/missing'', form = [], data = 0, method = const_POST, response_ch = 1\<rparr>"

definition missing_pass :: "label list" where
  "missing_pass =
     [New ''token'' ''secret'', Request 0 ''/missing'' [] 0 const_POST, Sync (U 0) (D 0), Tau 0,
      Tau 0]"

definition pc_chan :: "pc \<Rightarrow> chan option" where
  "pc_chan p =
     (case p of
        L_gate q \<Rightarrow> Some (response_ch q)
      | L_spend q p \<Rightarrow> Some (response_ch q)
      | L_exec q \<Rightarrow> Some (response_ch q)
      | L_requeue q T \<Rightarrow> Some (response_ch q)
      | L_deliver q err \<Rightarrow> Some (response_ch q)
      | _ \<Rightarrow> None)"

definition caller_chan :: "caller \<Rightarrow> chan option" where
  "caller_chan u = (case u of Submitting i q \<Rightarrow> Some (response_ch q) | _ \<Rightarrow> None)"

definition forgotten :: "chan \<Rightarrow> 'v state \<Rightarrow> bool" where
  "forgotten ch s =
     (ch < nchan s \<and> list_all (\<lambda>p. pc_chan p \<noteq> Some ch) (disp s)
      \<and> list_all (\<lambda>u. caller_chan u \<noteq> Some ch) (callers s) \<and> results_on ch (trace s) = [])"

definition first_query :: query where
  "first_query = \<lparr>url = ''/ok'', form = [], data = 0, method = const_GET, response_ch = 1\<rparr>"

definition second_query :: query where
  "second_query = \<lparr>url = ''/ok'', form = [], data = 1, method = const_POST, response_ch = 2\<rparr>"

definition two_calls :: "label list" where
  "two_calls =
     [New ''token'' ''secret'',
      Request 0 ''/ok'' [] 0 const_GET, Sync (U 0) (D 0), Tau 0, Tau 0, Sync (D 0) (U 0),
      Request 0 ''/ok'' [] 1 const_POST, Sync (U 1) (D 0), Tau 0, Tau 0, Sync (D 0) (U 1)]"

definition bad_query :: query where
  "bad_query = \<lparr>url = ''/bad'', form = [], data = 1, method = const_GET, response_ch = 2\<rparr>"

definition ok_then_bad :: "label list" where
  "ok_then_bad =
     [New ''token'' ''secret'',
      Request 0 ''/ok'' [] 0 const_GET, Sync (U 0) (D 0), Tau 0, Tau 0, Sync (D 0) (U 0),
      Request 0 ''/bad'' [] 1 const_GET, Sync (U 1) (D 0), Tau 0, Tau 0]"

definition odd_query :: query where
  "odd_query = \<lparr>url = ''/ok'', form = [], data = 0, method = 7, response_ch = 1\<rparr>"

definition odd_start :: "label list" where
  "odd_start = [New ''token'' ''secret'', Request 0 ''/ok'' [] 0 7, Sync (U 0) (D 0), Tau 0]"

definition demo_api :: TwitterApi where
  "demo_api = \<lparr>Credentials = \<lparr>Token = ''token'', Secret = ''secret''\<rparr>, queryQueue = 0,
               bucket = None\<rparr>"

definition at_drain :: "string state" where
  "at_drain = demo_boot\<lparr>apis := [demo_api], disp := [L_drain], nchan := 1\<rparr>"

definition busy :: "label list" where
  "busy =
     [Request 0 ''/ok'' [] 0 const_GET, Sync (U 0) (D 0), Tau 0, Refill 0, Tick, Tau 0,
      Sync (D 0) (U 0), Disable 0, Request 0 ''/missing'' [] 1 const_POST, Sync (U 1) (D 0),
      Tau 0, Tau 0]"

definition key_then_calls :: "label list" where
  "key_then_calls =
     [New ''token'' ''secret'', New ''other'' ''pass'', SetKey ''K'', SetSecret ''S'',
      Request 0 ''/ok'' [] 0 const_GET, Request 1 ''/ok'' [] 1 const_POST,
      Sync (U 0) (D 0), Sync (U 1) (D 1), Tau 1, Tau 0, Tau 1, Tau 0]"

definition gate_wait :: "label list" where
  "gate_wait =
     [New ''token'' ''secret'', Enable 0 1 0, Request 0 ''/ok'' [] 0 const_GET, Sync (U 0) (D 0),
      Tau 0, Disable 0]"

definition two_clients :: "label list" where
  "two_clients = [New ''token'' ''secret'', New ''other'' ''pass'']"

definition two_signed :: "label list" where
  "two_signed =
     [Request 0 ''/ok'' [] 0 const_GET, Request 1 ''/ok'' [] 1 const_POST,
      Sync (U 0) (D 0), Sync (U 1) (D 1), Tau 1, Tau 0, Tau 1, Tau 0]"

definition at_gate :: "label list" where
  "at_gate = [New ''token'' ''secret'', Request 0 ''/ok'' [] 0 const_GET, Sync (U 0) (D 0)]"

definition at_gate_limited :: "label list" where
  "at_gate_limited =
     [New ''token'' ''secret'', Enable 0 1 5, Request 0 ''/ok'' [] 0 const_GET, Sync (U 0) (D 0)]"

section \<open>Decoding and executing one query\<close>

lemma decodeResponse_calls: "calls (snd (decodeResponse w resp d s)) = calls s"
  by (simp add: decodeResponse_def split: prod.splits)

text \<open>
  C5. \<^verbatim>\<open>decodeResponse\<close>: on status 200 the body is decoded into the target \<open>d\<close> and
  a failure of the decoder is returned as an error after which the dispatcher does not re-submit;
  on any other status the result is the API error made from the response (status code, header
  and body), and the state, with the target in it, is as before.
\<close>

theorem decodeResponse_by_status:
  "(StatusCode resp = 200 \<longrightarrow>
      (\<forall>e v. Decode w (Body resp) (store s d) = (e, v) \<longrightarrow>
         decodeResponse w resp d s = (map_option DecodeError e, s\<lparr>store := (store s)(d := v)\<rparr>)
         \<and> (\<forall>m q. e = Some m \<longrightarrow>
               fst (decodeResponse w resp d s) = Some (DecodeError m)
               \<and> after_exec w q (Some (DecodeError m)) = L_recv)))
   \<and> (StatusCode resp \<noteq> 200 \<longrightarrow>
        decodeResponse w resp d s = (Some (ApiError_ptr (newApiError resp)), s)
        \<and> ApiError_StatusCode (newApiError resp) = StatusCode resp
        \<and> ApiError_Header (newApiError resp) = Header resp
        \<and> ApiError_Body (newApiError resp) = Body resp)"
  by (simp add: decodeResponse_def newApiError_def after_exec_def)

theorem decodeResponse_by_status_witness:
  "decodeResponse demo \<lparr>StatusCode = 200, Header = [], Body = ''{''\<rparr> 3 demo_boot =
     (Some (DecodeError ''unexpected end of JSON input''),
      demo_boot\<lparr>store := (store demo_boot)(3 := [])\<rparr>)
   \<and> after_exec demo \<lparr>url = ''/bad'', form = [], data = 3, method = 0, response_ch = 1\<rparr>
        (Some (DecodeError ''unexpected end of JSON input'')) = L_recv
   \<and> decodeResponse demo
        \<lparr>StatusCode = 429, Header = [(''X-Rate-Limit-Reset'', ''100'')], Body = []\<rparr> 3 demo_boot =
     (Some (ApiError_ptr \<lparr>ApiError_StatusCode = 429,
                           ApiError_Header = [(''X-Rate-Limit-Reset'', ''100'')],
                           ApiError_Body = []\<rparr>), demo_boot)"
  using decodeResponse_by_status
          [of "\<lparr>StatusCode = 200, Header = [], Body = ''{''\<rparr>" demo demo_boot 3]
        decodeResponse_by_status
          [of "\<lparr>StatusCode = 429, Header = [(''X-Rate-Limit-Reset'', ''100'')], Body = []\<rparr>"
              demo demo_boot 3]
  by (simp add: demo_def demo_Decode_def demo_boot_def boot_def newApiError_def)

lemma apiGet_calls:
  "calls (snd (apiGet w c u f d s)) =
     calls s @ [\<lparr>call_verb = GET, call_client = oauthClient s, call_user = Credentials c,
                 call_url = u, call_form = f\<rparr>]"
  by (simp add: apiGet_def Let_def decodeResponse_calls split: sum.splits)

lemma apiPost_calls:
  "calls (snd (apiPost w c u f d s)) =
     calls s @ [\<lparr>call_verb = POST, call_client = oauthClient s, call_user = Credentials c,
                 call_url = u, call_form = f\<rparr>]"
  by (simp add: apiPost_def Let_def decodeResponse_calls split: sum.splits)

lemma execQuery_frame:
  assumes "execQuery w c u f d m s = (err, s1)"
  shows "apis s1 = apis s" "disp s1 = disp s" "callers s1 = callers s" "nchan s1 = nchan s"
    "trace s1 = trace s" "crashed s1 = crashed s" "oauthClient s1 = oauthClient s"
    "clock s1 = clock s" "buckets s1 = buckets s" "nbucket s1 = nbucket s"
  using assms
  by (auto simp add: execQuery_def apiGet_def apiPost_def decodeResponse_def Let_def
      split: if_splits sum.splits prod.splits)

lemma execQuery_sig:
  assumes "execQuery w c u f d m s = (err, s1)"
  shows "map call_sig (calls s1) =
           map call_sig (calls s) @
             (if m = const_GET then [(GET, u, f)] else if m = const_POST then [(POST, u, f)] else [])"
proof -
  from assms have "s1 = snd (execQuery w c u f d m s)" by simp
  then show ?thesis
    by (simp add: execQuery_def apiGet_calls apiPost_calls call_sig_def)
qed

text \<open>
  C6. \<^verbatim>\<open>execQuery\<close> is \<^verbatim>\<open>apiGet\<close> for \<^verbatim>\<open>_GET\<close> and \<^verbatim>\<open>apiPost\<close> for
  \<^verbatim>\<open>_POST\<close>, each handing exactly one signed call of that verb to the transport. For any
  other method it returns the error "HTTP method not yet supported" and the state as it was, so
  no call is made; after that error the dispatcher goes back to the head of its loop without
  re-submitting the query.
\<close>

theorem execQuery_by_method:
  "(m = const_GET \<longrightarrow>
      execQuery w c u f d m s = apiGet w c u f d s
      \<and> calls (snd (execQuery w c u f d m s)) =
          calls s @ [\<lparr>call_verb = GET, call_client = oauthClient s, call_user = Credentials c,
                      call_url = u, call_form = f\<rparr>])
   \<and> (m = const_POST \<longrightarrow>
      execQuery w c u f d m s = apiPost w c u f d s
      \<and> calls (snd (execQuery w c u f d m s)) =
          calls s @ [\<lparr>call_verb = POST, call_client = oauthClient s, call_user = Credentials c,
                      call_url = u, call_form = f\<rparr>])
   \<and> (m \<noteq> const_GET \<and> m \<noteq> const_POST \<longrightarrow>
      execQuery w c u f d m s = (Some (Errorf ''HTTP method not yet supported''), s)
      \<and> after_exec w q (Some (Errorf ''HTTP method not yet supported'')) = L_recv
      \<and> (\<not> crashed s \<and> i < length (apis s) \<and> i < length (disp s)
             \<and> disp s ! i = L_exec q \<and> method q = m \<longrightarrow>
             throttledQuery_step w i s =
               Some (s\<lparr>disp := (disp s)[i := L_recv],
                       trace := trace s @
                         [Executed i q (Some (Errorf ''HTTP method not yet supported''))]\<rparr>)))"
  by (simp add: execQuery_def apiGet_calls apiPost_calls const_GET_def const_POST_def
      after_exec_def throttledQuery_step_def)

theorem execQuery_by_method_witness:
  "calls (snd (execQuery demo demo_api ''/ok'' [] 0 0 demo_boot)) =
     [\<lparr>call_verb = GET, call_client = oauthClient demo_boot,
       call_user = \<lparr>Token = ''token'', Secret = ''secret''\<rparr>, call_url = ''/ok'', call_form = []\<rparr>]
   \<and> calls (snd (execQuery demo demo_api ''/ok'' [] 0 1 demo_boot)) =
     [\<lparr>call_verb = POST, call_client = oauthClient demo_boot,
       call_user = \<lparr>Token = ''token'', Secret = ''secret''\<rparr>, call_url = ''/ok'', call_form = []\<rparr>]
   \<and> execQuery demo demo_api ''/ok'' [] 0 7 (run demo odd_start demo_boot) =
         (Some (Errorf ''HTTP method not yet supported''), run demo odd_start demo_boot)
   \<and> throttledQuery_step demo 0 (run demo odd_start demo_boot) =
         Some ((run demo odd_start demo_boot)
                 \<lparr>disp := (disp (run demo odd_start demo_boot))[0 := L_recv],
                   trace := trace (run demo odd_start demo_boot) @
                     [Executed 0 odd_query (Some (Errorf ''HTTP method not yet supported''))]\<rparr>)"
proof -
  have h: "\<not> crashed (run demo odd_start demo_boot) \<and> 0 < length (apis (run demo odd_start demo_boot))
      \<and> 0 < length (disp (run demo odd_start demo_boot))
      \<and> disp (run demo odd_start demo_boot) ! 0 = L_exec odd_query \<and> method odd_query = 7"
    by code_simp
  have e: "calls demo_boot = []" "Credentials demo_api = \<lparr>Token = ''token'', Secret = ''secret''\<rparr>"
    by (simp_all add: demo_boot_def boot_def demo_api_def)
  have g: "(0::int) = const_GET" "(1::int) = const_POST"
    by (simp_all add: const_GET_def const_POST_def)
  from execQuery_by_method [of 0 demo demo_api "''/ok''" "[]" 0 demo_boot] g(1)
  have "calls (snd (execQuery demo demo_api ''/ok'' [] 0 0 demo_boot)) =
     calls demo_boot @ [\<lparr>call_verb = GET, call_client = oauthClient demo_boot,
       call_user = Credentials demo_api, call_url = ''/ok'', call_form = []\<rparr>]"
    by blast
  with e have A: "calls (snd (execQuery demo demo_api ''/ok'' [] 0 0 demo_boot)) =
     [\<lparr>call_verb = GET, call_client = oauthClient demo_boot,
       call_user = \<lparr>Token = ''token'', Secret = ''secret''\<rparr>, call_url = ''/ok'', call_form = []\<rparr>]"
    by simp
  from execQuery_by_method [of 1 demo demo_api "''/ok''" "[]" 0 demo_boot] g(2)
  have "calls (snd (execQuery demo demo_api ''/ok'' [] 0 1 demo_boot)) =
     calls demo_boot @ [\<lparr>call_verb = POST, call_client = oauthClient demo_boot,
       call_user = Credentials demo_api, call_url = ''/ok'', call_form = []\<rparr>]"
    by blast
  with e have B: "calls (snd (execQuery demo demo_api ''/ok'' [] 0 1 demo_boot)) =
     [\<lparr>call_verb = POST, call_client = oauthClient demo_boot,
       call_user = \<lparr>Token = ''token'', Secret = ''secret''\<rparr>, call_url = ''/ok'', call_form = []\<rparr>]"
    by simp
  from execQuery_by_method
         [of 7 demo demo_api "''/ok''" "[]" 0 "run demo odd_start demo_boot" odd_query 0] h
  have C: "execQuery demo demo_api ''/ok'' [] 0 7 (run demo odd_start demo_boot) =
         (Some (Errorf ''HTTP method not yet supported''), run demo odd_start demo_boot)
   \<and> throttledQuery_step demo 0 (run demo odd_start demo_boot) =
         Some ((run demo odd_start demo_boot)
                 \<lparr>disp := (disp (run demo odd_start demo_boot))[0 := L_recv],
                   trace := trace (run demo odd_start demo_boot) @
                     [Executed 0 odd_query (Some (Errorf ''HTTP method not yet supported''))]\<rparr>)"
    by (simp add: const_GET_def const_POST_def)
  from A B C show ?thesis by simp
qed

section \<open>Calls on a client without a bucket\<close>

text \<open>
  C9. On a client whose bucket is \<^verbatim>\<open>nil\<close> (in particular after
  \<^verbatim>\<open>DisableRateLimiting\<close> and as returned by \<^verbatim>\<open>NewTwitterApi\<close>), \<^verbatim>\<open>SetDelay\<close> and
  \<^verbatim>\<open>GetDelay\<close> end in a nil-pointer panic; and the dispatcher, standing at the
  \<^verbatim>\<open>Drain\<close> call with a \<^verbatim>\<open>nil\<close> bucket, panics as well, since the call has no guard.
\<close>

theorem nil_bucket_panics:
  "(bucket c = None \<longrightarrow>
      SetDelay t c bs = Inl NilPointerDereference \<and> GetDelay c bs = Inl NilPointerDereference)
   \<and> SetDelay t (DisableRateLimiting c) bs = Inl NilPointerDereference
   \<and> GetDelay (DisableRateLimiting c) bs = Inl NilPointerDereference
   \<and> (\<forall>n s'. NewTwitterApi a b s = (n, s') \<longrightarrow>
         SetDelay t (apis s' ! n) bs = Inl NilPointerDereference
         \<and> GetDelay (apis s' ! n) bs = Inl NilPointerDereference)
   \<and> (\<not> crashed s \<and> i < length (apis s) \<and> i < length (disp s) \<and> disp s ! i = L_drain
        \<and> bucket (apis s ! i) = None \<longrightarrow>
        throttledQuery_step w i s = Some (s\<lparr>crashed := True\<rparr>))"
  by (auto simp add: SetDelay_def GetDelay_def DisableRateLimiting_def NewTwitterApi_def Let_def
      throttledQuery_step_def)

theorem nil_bucket_panics_witness:
  "SetDelay 5 demo_api (buckets demo_boot) = Inl NilPointerDereference
   \<and> GetDelay demo_api (buckets demo_boot) = Inl NilPointerDereference
   \<and> SetDelay 5 (apis (snd (NewTwitterApi ''token'' ''secret'' demo_boot)) ! 0) (buckets demo_boot)
        = Inl NilPointerDereference
   \<and> GetDelay (apis (snd (NewTwitterApi ''token'' ''secret'' demo_boot)) ! 0) (buckets demo_boot)
        = Inl NilPointerDereference
   \<and> throttledQuery_step demo 0 at_drain = Some (at_drain\<lparr>crashed := True\<rparr>)"
proof -
  have n: "NewTwitterApi ''token'' ''secret'' demo_boot =
             (0, snd (NewTwitterApi ''token'' ''secret'' demo_boot))"
    by (simp add: NewTwitterApi_def Let_def demo_boot_def boot_def)
  have h: "bucket demo_api = None" "\<not> crashed at_drain \<and> 0 < length (apis at_drain)
      \<and> 0 < length (disp at_drain) \<and> disp at_drain ! 0 = L_drain
      \<and> bucket (apis at_drain ! 0) = None"
    by (simp_all add: demo_api_def at_drain_def demo_boot_def boot_def)
  from nil_bucket_panics [of demo_api 5 "buckets demo_boot" "''token''" "''secret''" demo_boot] n h(1)
  have "SetDelay 5 demo_api (buckets demo_boot) = Inl NilPointerDereference
   \<and> GetDelay demo_api (buckets demo_boot) = Inl NilPointerDereference
   \<and> SetDelay 5 (apis (snd (NewTwitterApi ''token'' ''secret'' demo_boot)) ! 0) (buckets demo_boot)
        = Inl NilPointerDereference
   \<and> GetDelay (apis (snd (NewTwitterApi ''token'' ''secret'' demo_boot)) ! 0) (buckets demo_boot)
        = Inl NilPointerDereference"
    by blast
  moreover from nil_bucket_panics
      [of demo_api 5 "buckets demo_boot" "''token''" "''secret''" at_drain 0 demo] h(2)
  have "throttledQuery_step demo 0 at_drain = Some (at_drain\<lparr>crashed := True\<rparr>)"
    by blast
  ultimately show ?thesis by simp
qed

section \<open>Steps of the process\<close>

text \<open>
  The cases in which a dispatcher, a pair of goroutines and the process can move, and what the
  move changes.
\<close>

lemma EnableRateLimiting_frame [simp]:
  "trace (EnableRateLimiting r n i s) = trace s" "disp (EnableRateLimiting r n i s) = disp s"
  "calls (EnableRateLimiting r n i s) = calls s"
  "oauthClient (EnableRateLimiting r n i s) = oauthClient s"
  "callers (EnableRateLimiting r n i s) = callers s" "nchan (EnableRateLimiting r n i s) = nchan s"
  "crashed (EnableRateLimiting r n i s) = crashed s"
  "length (apis (EnableRateLimiting r n i s)) = length (apis s)"
  "nbucket (EnableRateLimiting r n i s) = Suc (nbucket s)"
  by (simp_all add: EnableRateLimiting_def)

lemma queues_update_same:
  "i < length xs \<Longrightarrow> queryQueue c = queryQueue (xs ! i) \<Longrightarrow>
     map queryQueue (xs[i := c]) = map queryQueue xs"
  by (simp add: map_update list_update_same_conv)

lemma throttledQuery_step_shape:
  assumes "throttledQuery_step w i s = Some s'"
  shows "queues s' = queues s" "nchan s' = nchan s" "length (disp s') = length (disp s)"
    "length (apis s') = length (apis s)"
    "callers s' = callers s" "i < length (disp s)"
    "\<And>j. j \<noteq> i \<Longrightarrow> pc_of s' j = pc_of s j"
    "disp s ! i \<noteq> L_recv" "\<And>q T. disp s ! i \<noteq> L_requeue q T" "\<And>q e. disp s ! i \<noteq> L_deliver q e"
  using assms
  by (auto simp add: throttledQuery_step_def queues_def pc_of_def Let_def SpendToken_def
      split: if_splits pc.splits option.splits prod.splits dest: execQuery_frame)

lemma throttledQuery_step_index:
  "throttledQuery_step w k s = Some s' \<Longrightarrow> k < length (disp s) \<and> k < length (apis s)"
  by (simp add: throttledQuery_step_def split: if_splits)

lemma throttledQuery_step_cases:
  assumes "throttledQuery_step w i s = Some s'"
  obtains
    (gate_free) q where
      "disp s ! i = L_gate q" "bucket (apis s ! i) = None"
      "s' = s\<lparr>disp := (disp s)[i := L_exec q]\<rparr>"
  | (gate_call) q p where
      "disp s ! i = L_gate q" "bucket (apis s ! i) = Some p"
      "s' = s\<lparr>disp := (disp s)[i := L_spend q p]\<rparr>"
  | (spend) q p where
      "disp s ! i = L_spend q p" "1 \<le> tokens (buckets s p)"
      "s' = s\<lparr>buckets := (buckets s)(p := (buckets s p)\<lparr>tokens := tokens (buckets s p) - 1\<rparr>),
               disp := (disp s)[i := L_exec q], trace := trace s @ [Spent i]\<rparr>"
  | (exec) q err s1 where
      "disp s ! i = L_exec q"
      "execQuery w (apis s ! i) (url q) (form q) (data q) (method q) s = (err, s1)"
      "s' = s1\<lparr>disp := (disp s)[i := after_exec w q err],
                trace := trace s @ [Executed i q err]\<rparr>"
  | (sleep) T where
      "disp s ! i = L_sleep T" "T \<le> clock s"
      "s' = s\<lparr>disp := (disp s)[i := L_drain], trace := trace s @ [Slept i]\<rparr>"
  | (drain_nil)
      "disp s ! i = L_drain" "bucket (apis s ! i) = None" "s' = s\<lparr>crashed := True\<rparr>"
  | (drain) p where
      "disp s ! i = L_drain" "bucket (apis s ! i) = Some p"
      "s' = s\<lparr>buckets := (buckets s)(p := Drain (buckets s p)),
               disp := (disp s)[i := L_recv], trace := trace s @ [Drained i]\<rparr>"
proof (cases "disp s ! i")
  case L_recv
  with assms show ?thesis by (simp add: throttledQuery_step_def split: if_splits)
next
  case (L_gate q)
  with assms gate_free [of q] gate_call [of q] show ?thesis
    by (auto simp add: throttledQuery_step_def Let_def split: if_splits option.splits)
next
  case (L_spend q p)
  with assms spend [of q p] show ?thesis
    by (auto simp add: throttledQuery_step_def SpendToken_def Let_def
        split: if_splits option.splits)
next
  case (L_exec q)
  obtain err s1 where
    e: "execQuery w (apis s ! i) (url q) (form q) (data q) (method q) s = (err, s1)"
    by (cases "execQuery w (apis s ! i) (url q) (form q) (data q) (method q) s")
  with L_exec assms execQuery_frame(2,5) [OF e] show ?thesis
    by (intro exec [of q err s1])
       (auto simp add: throttledQuery_step_def Let_def split: if_splits)
next
  case (L_requeue q T)
  with assms show ?thesis by (simp add: throttledQuery_step_def split: if_splits)
next
  case (L_sleep T)
  with assms sleep [of T] show ?thesis
    by (auto simp add: throttledQuery_step_def Let_def split: if_splits)
next
  case L_drain
  with assms drain_nil drain show ?thesis
    by (auto simp add: throttledQuery_step_def Let_def split: if_splits option.splits)
next
  case (L_deliver q err)
  with assms show ?thesis by (simp add: throttledQuery_step_def split: if_splits)
qed

lemma after_exec_cases:
  obtains (abandon) "after_exec w q err = L_recv" "err \<noteq> None"
  | (retry) T where "after_exec w q err = L_requeue q T" "err \<noteq> None"
  | (deliver) "after_exec w q err = L_deliver q None" "err = None"
proof (cases err)
  case None
  with deliver show ?thesis by (simp add: after_exec_def)
next
  case (Some e)
  show ?thesis
  proof (cases e)
    case (ApiError_ptr a)
    obtain b T where "RateLimitCheck w a = (b, T)"
      by (cases "RateLimitCheck w a")
    with Some ApiError_ptr abandon retry [of T] show ?thesis
      by (cases b) (simp_all add: after_exec_def)
  qed (use Some abandon in \<open>simp_all add: after_exec_def\<close>)
qed

lemma sync_shape:
  assumes "sync g h s = Some s'"
  shows "apis s' = apis s" "nchan s' = nchan s" "length (disp s') = length (disp s)"
  using assms
  by (auto simp add: sync_def offer_of_def disp_offer_def caller_offer_def sent_def took_query_def
      took_response_def split: if_splits gid.splits pc.splits caller.splits offer.splits)

lemma sync_cases:
  assumes "sync g h s = Some s'"
  obtains
    (submit) j i' i q where
      "g = U j" "h = D i" "j < length (callers s)" "callers s ! j = Submitting i' q"
      "i' < length (apis s)" "i < length (apis s)" "i < length (disp s)"
      "queryQueue (apis s ! i') = queryQueue (apis s ! i)" "disp s ! i = L_recv"
      "s' = s\<lparr>callers := (callers s)[j := Waiting q], disp := (disp s)[i := L_gate q],
               trace := trace s @ [Enqueued i' q, Received i q]\<rparr>"
  | (requeue) i k q T where
      "g = D i" "h = D k" "i \<noteq> k" "i < length (apis s)" "k < length (apis s)"
      "i < length (disp s)" "k < length (disp s)"
      "queryQueue (apis s ! i) = queryQueue (apis s ! k)"
      "disp s ! i = L_requeue q T" "disp s ! k = L_recv"
      "s' = s\<lparr>disp := (disp s)[i := L_sleep T, k := L_gate q],
               trace := trace s @ [Requeued i q, Received k q]\<rparr>"
  | (deliver) i j q err q' where
      "g = D i" "h = U j" "i < length (apis s)" "i < length (disp s)" "j < length (callers s)"
      "disp s ! i = L_deliver q err" "callers s ! j = Waiting q'" "response_ch q = response_ch q'"
      "s' = s\<lparr>callers := (callers s)[j := Returned \<lparr>response_data = data q, response_err = err\<rparr>],
               disp := (disp s)[i := L_recv],
               trace := trace s @ [Delivered i q \<lparr>response_data = data q, response_err = err\<rparr>]\<rparr>"
proof (cases g)
  case (D i)
  note g = this
  show ?thesis
  proof (cases h)
    case (D k)
    with g assms obtain q T where "disp s ! i = L_requeue q T"
      by (auto simp add: sync_def offer_of_def disp_offer_def
            split: if_splits pc.splits offer.splits)
    with D g assms show ?thesis
      by (intro requeue [of i k q T])
         (auto simp add: sync_def offer_of_def disp_offer_def sent_def took_query_def
            split: if_splits pc.splits offer.splits)
  next
    case (U j)
    with g assms obtain q err q' where "disp s ! i = L_deliver q err" "callers s ! j = Waiting q'"
      by (auto simp add: sync_def offer_of_def disp_offer_def caller_offer_def
            split: if_splits pc.splits offer.splits caller.splits)
    with U g assms show ?thesis
      by (intro deliver [of i j q err q'])
         (auto simp add: sync_def offer_of_def disp_offer_def caller_offer_def sent_def
            took_response_def split: if_splits pc.splits offer.splits caller.splits)
  qed
next
  case (U j)
  note g = this
  show ?thesis
  proof (cases h)
    case (D i)
    with g assms obtain i' q where "callers s ! j = Submitting i' q"
      by (auto simp add: sync_def offer_of_def disp_offer_def caller_offer_def
            split: if_splits pc.splits offer.splits caller.splits)
    with D g assms show ?thesis
      by (intro submit [of j i i' q])
         (auto simp add: sync_def offer_of_def disp_offer_def caller_offer_def sent_def
            took_query_def split: if_splits pc.splits offer.splits caller.splits)
  next
    case (U k)
    with g assms show ?thesis
      by (auto simp add: sync_def offer_of_def caller_offer_def
            split: if_splits offer.splits caller.splits)
  qed
qed

lemma step_shape:
  assumes "step w l s = Some s'" "\<And>a b. l \<noteq> New a b"
  shows "queues s' = queues s \<and> nchan s \<le> nchan s' \<and> length (disp s') = length (disp s)
         \<and> length (apis s') = length (apis s)"
proof (cases l)
  case (New a b)
  with assms(2) show ?thesis by blast
next
  case (Sync g h)
  with assms(1) sync_shape [of g h s s'] show ?thesis
    by (auto simp add: step_def queues_def split: if_splits)
next
  case (Tau i)
  with assms(1) throttledQuery_step_shape(1-4) [of w i s s'] show ?thesis
    by (auto simp add: step_def split: if_splits)
qed (use assms(1) in \<open>auto simp add: step_def queues_def SetConsumerKey_def SetConsumerSecret_def
       EnableRateLimiting_def DisableRateLimiting_def SetDelay_def queues_update_same
     split: if_splits option.splits sum.splits\<close>)

lemma step_cases:
  assumes "step w l s = Some s'"
  obtains
    (New) a b where "l = New a b" "s' = snd (NewTwitterApi a b s)"
  | (Sync) g h where "l = Sync g h" "sync g h s = Some s'"
  | (Tau) k where "l = Tau k" "throttledQuery_step w k s = Some s'"
  | (quiet) "trace s' = trace s" "disp s' = disp s" "calls s' = calls s"
      "\<And>a b. l \<noteq> New a b" "\<And>g h. l \<noteq> Sync g h" "\<And>k. l \<noteq> Tau k"
proof (cases l)
  case (New a b)
  with assms that(1) [of a b] show ?thesis by (simp add: step_def split: if_splits)
next
  case (Sync g h)
  with assms that(2) [of g h] show ?thesis by (simp add: step_def split: if_splits)
next
  case (Tau k)
  with assms that(3) [of k] show ?thesis by (simp add: step_def split: if_splits)
next
  case (SetKey k)
  with assms that(4) show ?thesis by (auto simp add: step_def SetConsumerKey_def split: if_splits)
next
  case (SetSecret k)
  with assms that(4) show ?thesis by (auto simp add: step_def SetConsumerSecret_def split: if_splits)
next
  case (Enable k r n)
  with assms that(4) show ?thesis by (auto simp add: step_def split: if_splits)
next
  case (Disable k)
  with assms that(4) show ?thesis by (auto simp add: step_def split: if_splits)
next
  case (Delay k t)
  with assms that(4) show ?thesis by (auto simp add: step_def split: if_splits sum.splits)
next
  case (Request k u f d m)
  with assms that(4) show ?thesis by (auto simp add: step_def split: if_splits)
next
  case Tick
  with assms that(4) show ?thesis by (auto simp add: step_def split: if_splits)
next
  case (Refill k)
  with assms that(4) show ?thesis by (auto simp add: step_def split: if_splits option.splits)
qed

lemma run_snoc:
  "run w (ls @ [l]) s = (case step w l (run w ls s) of None \<Rightarrow> run w ls s | Some s' \<Rightarrow> s')"
  by (induction ls arbitrary: s) (auto split: option.splits)

lemma pc_of_New: "pc_of (snd (NewTwitterApi a b s)) i = pc_of s i"
  by (simp add: NewTwitterApi_def Let_def pc_of_def nth_append)

lemma pc_of_disp_update:
  "disp s' = (disp s)[k := p] \<Longrightarrow>
     pc_of s' i = (if i = k \<and> k < length (disp s) then p else pc_of s i)"
  by (simp add: pc_of_def nth_list_update)

text \<open>
  What an event adds to the parts of the trace.
\<close>

lemma events_append [simp]:
  "received i (es @ fs) = received i es @ received i fs"
  "executed i (es @ fs) = executed i es @ executed i fs"
  "delivered i (es @ fs) = delivered i es @ delivered i fs"
  "enqueued i (es @ fs) = enqueued i es @ enqueued i fs"
  "sent_out (es @ fs) = sent_out es @ sent_out fs"
  by (simp_all add: received_def executed_def delivered_def enqueued_def sent_out_def)

lemma events_Nil [simp]:
  "received i [] = []" "executed i [] = []" "delivered i [] = []" "enqueued i [] = []"
  "sent_out [] = []"
  by (simp_all add: received_def executed_def delivered_def enqueued_def sent_out_def)

lemma events_Cons [simp]:
  "received i (e # es) =
     (case e of Received j q \<Rightarrow> if j = i then [q] else [] | _ \<Rightarrow> []) @ received i es"
  "executed i (e # es) =
     (case e of Executed j q err \<Rightarrow> if j = i then [q] else [] | _ \<Rightarrow> []) @ executed i es"
  "delivered i (e # es) =
     (case e of Delivered j q r \<Rightarrow> if j = i then [q] else [] | _ \<Rightarrow> []) @ delivered i es"
  "enqueued i (e # es) =
     (case e of Enqueued j q \<Rightarrow> if j = i then [q] else [] | _ \<Rightarrow> []) @ enqueued i es"
  by (simp_all add: received_def executed_def delivered_def enqueued_def)

lemma spent_append [simp]: "spent n (es @ fs) = spent n es + spent n fs"
  by (simp add: spent_def)

lemma spent_Nil [simp]: "spent n [] = 0"
  by (simp add: spent_def)

lemma spent_Cons [simp]: "spent n (e # es) = (if e = Spent n then 1 else 0) + spent n es"
  by (simp add: spent_def)

lemma results_on_append [simp]:
  "results_on ch (es @ fs) = results_on ch es @ results_on ch fs"
  by (simp add: results_on_def)

lemma results_on_Nil [simp]: "results_on ch [] = []"
  by (simp add: results_on_def)

lemma results_on_Cons [simp]:
  "results_on ch (e # es) =
     (case e of Delivered j q r \<Rightarrow> if response_ch q = ch then [r] else [] | _ \<Rightarrow> [])
       @ results_on ch es"
  by (simp add: results_on_def)

lemma pc_chan_simps [simp]:
  "pc_chan L_recv = None" "pc_chan (L_gate q) = Some (response_ch q)"
  "pc_chan (L_spend q p) = Some (response_ch q)"
  "pc_chan (L_exec q) = Some (response_ch q)" "pc_chan (L_requeue q T) = Some (response_ch q)"
  "pc_chan (L_sleep T) = None" "pc_chan L_drain = None"
  "pc_chan (L_deliver q err) = Some (response_ch q)"
  by (simp_all add: pc_chan_def)

lemma caller_chan_simps [simp]:
  "caller_chan (Submitting i q) = Some (response_ch q)" "caller_chan (Waiting q) = None"
  "caller_chan (Returned r) = None"
  by (simp_all add: caller_chan_def)

section \<open>Well-formed states\<close>

lemma wf_step: "wf s \<Longrightarrow> step w l s = Some s' \<Longrightarrow> wf s'"
proof (cases "\<exists>a b. l = New a b")
  case True
  assume "wf s" "step w l s = Some s'"
  with True show ?thesis
    by (fastforce simp add: step_def wf_def queues_def NewTwitterApi_def Let_def list_all_iff
        split: if_splits intro: less_SucI)
next
  case False
  assume "wf s" "step w l s = Some s'"
  with False step_shape [of w l s s'] show ?thesis
    by (auto simp add: wf_def list_all_iff)
qed

lemma wf_run: "wf s \<Longrightarrow> wf (run w ls s)"
  by (induction ls arbitrary: s) (auto split: option.splits dest: wf_step)

lemma wf_boot: "wf (boot st)"
  by (simp add: wf_def boot_def queues_def)

lemma wf_queue_inj:
  "wf s \<Longrightarrow> i < length (apis s) \<Longrightarrow> k < length (apis s) \<Longrightarrow>
     queryQueue (apis s ! i) = queryQueue (apis s ! k) \<Longrightarrow> i = k"
  using nth_eq_iff_index_eq [of "queues s" i k]
  by (simp add: wf_def queues_def)

lemma run_induct:
  assumes "P s" "\<And>l s s'. wf s \<Longrightarrow> P s \<Longrightarrow> step w l s = Some s' \<Longrightarrow> P s'" "wf s"
  shows "P (run w ls s)"
  using assms(1,3)
proof (induction ls arbitrary: s)
  case Nil
  then show ?case by simp
next
  case (Cons l ls)
  show ?case
  proof (cases "step w l s")
    case None
    with Cons show ?thesis by simp
  next
    case (Some s')
    with Cons.prems assms(2) [of s l s'] wf_step [of s w l s'] Cons.IH [of s'] show ?thesis
      by simp
  qed
qed

section \<open>The shared OAuth client\<close>

lemma oauthClient_step:
  assumes "step w l s = Some s'" "\<And>k. l \<noteq> SetKey k" "\<And>x. l \<noteq> SetSecret x"
  shows "oauthClient s' = oauthClient s"
proof (cases l)
  case (New a b)
  with assms(1) show ?thesis
    by (auto simp add: step_def NewTwitterApi_def Let_def split: if_splits)
next
  case (Sync g h)
  with assms(1) have "sync g h s = Some s'" by (simp add: step_def split: if_splits)
  then show ?thesis by (cases rule: sync_cases) simp_all
next
  case (Tau k)
  with assms(1) have "throttledQuery_step w k s = Some s'" by (simp add: step_def split: if_splits)
  then show ?thesis
  proof (cases rule: throttledQuery_step_cases)
    case (exec q err s1)
    with execQuery_frame(7) [OF exec(2)] show ?thesis by simp
  qed simp_all
qed (use assms in \<open>auto simp add: step_def split: if_splits option.splits sum.splits\<close>)

lemma execQuery_calls_client:
  assumes "execQuery w c u f d m s = (err, s1)"
  shows "calls s1 = calls s
    \<or> (\<exists>cl. calls s1 = calls s @ [cl] \<and> call_client cl = oauthClient s
              \<and> call_user cl = Credentials c)"
proof -
  from assms have "s1 = snd (execQuery w c u f d m s)" by simp
  then show ?thesis
    by (simp add: execQuery_def apiGet_calls apiPost_calls)
qed

text \<open>The signed calls that a step adds carry the variable as it was before the step.\<close>

lemma new_calls_step:
  assumes "step w l s = Some s'"
  shows "\<exists>new. calls s' = calls s @ new \<and> list_all (\<lambda>cl. call_client cl = oauthClient s) new"
  using assms
proof (cases rule: step_cases)
  case (New a b)
  then show ?thesis by (simp add: NewTwitterApi_def Let_def)
next
  case (Sync g h)
  from Sync(2) show ?thesis by (cases rule: sync_cases) simp_all
next
  case (Tau k)
  from Tau(2) show ?thesis
  proof (cases rule: throttledQuery_step_cases)
    case (exec q err s1)
    with execQuery_calls_client [OF exec(2)] show ?thesis by auto
  qed simp_all
next
  case quiet
  then show ?thesis by simp
qed

lemma client_part_run:
  assumes "\<forall>l\<in>set ls. \<forall>t t'. step w l t = Some t' \<longrightarrow> P (oauthClient t') = P (oauthClient t)"
  shows "P (oauthClient (run w ls s)) = P (oauthClient s)
    \<and> (\<exists>new. calls (run w ls s) = calls s @ new
              \<and> list_all (\<lambda>cl. P (call_client cl) = P (oauthClient s)) new)"
  using assms
proof (induction ls arbitrary: s)
  case Nil
  then show ?case by simp
next
  case (Cons l ls)
  from Cons.prems
  have pres: "\<forall>l\<in>set ls. \<forall>t t'. step w l t = Some t' \<longrightarrow> P (oauthClient t') = P (oauthClient t)"
    by simp
  show ?case
  proof (cases "step w l s")
    case None
    with Cons.IH [OF pres, of s] show ?thesis by simp
  next
    case (Some s')
    with Cons.prems have P: "P (oauthClient s') = P (oauthClient s)"
      by simp
    from new_calls_step [OF Some] obtain new1 where
      n1: "calls s' = calls s @ new1" "list_all (\<lambda>cl. call_client cl = oauthClient s) new1"
      by blast
    from Cons.IH [OF pres, of s'] obtain new2 where
      n2: "P (oauthClient (run w ls s')) = P (oauthClient s')"
        "calls (run w ls s') = calls s' @ new2"
        "list_all (\<lambda>cl. P (call_client cl) = P (oauthClient s')) new2"
      by auto
    from n1(2) have "list_all (\<lambda>cl. P (call_client cl) = P (oauthClient s)) new1"
      by (simp add: list_all_iff)
    with n1(1) n2 P Some show ?thesis by simp
  qed
qed

lemma key_kept_step:
  assumes "step w l s = Some s'" "\<And>k'. l \<noteq> SetKey k'"
  shows "Token (Client_Credentials (oauthClient s')) = Token (Client_Credentials (oauthClient s))"
proof (cases "\<exists>x. l = SetSecret x")
  case True
  with assms(1) show ?thesis
    by (auto simp add: step_def SetConsumerSecret_def split: if_splits)
next
  case False
  with oauthClient_step [OF assms(1)] assms(2) show ?thesis by simp
qed

lemma secret_kept_step:
  assumes "step w l s = Some s'" "\<And>x'. l \<noteq> SetSecret x'"
  shows "Secret (Client_Credentials (oauthClient s')) = Secret (Client_Credentials (oauthClient s))"
proof (cases "\<exists>k. l = SetKey k")
  case True
  with assms(1) show ?thesis
    by (auto simp add: step_def SetConsumerKey_def split: if_splits)
next
  case False
  with oauthClient_step [OF assms(1)] assms(2) show ?thesis by simp
qed

text \<open>
  C8. \<^verbatim>\<open>SetConsumerKey\<close> and \<^verbatim>\<open>SetConsumerSecret\<close> write the key and the secret into
  the one package variable \<^verbatim>\<open>oauthClient\<close>, each leaving the rest of the variable (the other
  credential, the three addresses) and every \<^verbatim>\<open>TwitterApi\<close> of the process as they were.
  Every signed GET or POST, of whatever client \<open>c\<close>, is signed with the value the variable has
  at that moment and with the credentials of \<open>c\<close>, and nothing else that happens in the
  process changes the variable. So in every execution that follows \<^verbatim>\<open>SetConsumerKey\<close> and
  does not call it again, the variable keeps the key and every signed call made, by any client,
  carries it, also when \<^verbatim>\<open>SetConsumerSecret\<close> is called in between; and likewise for the
  secret.
\<close>

theorem SetConsumer_process_wide:
  "apis (SetConsumerKey k s) = apis s
   \<and> apis (SetConsumerSecret x s) = apis s
   \<and> Token (Client_Credentials (oauthClient (SetConsumerKey k s))) = k
   \<and> Secret (Client_Credentials (oauthClient (SetConsumerSecret x s))) = x
   \<and> calls (snd (apiGet w c u f d s)) =
        calls s @ [\<lparr>call_verb = GET, call_client = oauthClient s, call_user = Credentials c,
                    call_url = u, call_form = f\<rparr>]
   \<and> calls (snd (apiPost w c u f d s)) =
        calls s @ [\<lparr>call_verb = POST, call_client = oauthClient s, call_user = Credentials c,
                    call_url = u, call_form = f\<rparr>]
   \<and> (step w l s = Some s' \<and> (\<forall>k'. l \<noteq> SetKey k') \<and> (\<forall>x'. l \<noteq> SetSecret x') \<longrightarrow>
        oauthClient s' = oauthClient s)
   \<and> oauthClient (SetConsumerKey k s) =
        (oauthClient s)\<lparr>Client_Credentials := (Client_Credentials (oauthClient s))\<lparr>Token := k\<rparr>\<rparr>
   \<and> oauthClient (SetConsumerSecret x s) =
        (oauthClient s)\<lparr>Client_Credentials := (Client_Credentials (oauthClient s))\<lparr>Secret := x\<rparr>\<rparr>
   \<and> ((\<forall>k'. SetKey k' \<notin> set ls) \<longrightarrow>
        Token (Client_Credentials (oauthClient (run w ls (SetConsumerKey k s)))) = k
        \<and> (\<exists>new. calls (run w ls (SetConsumerKey k s)) = calls s @ new
                 \<and> list_all (\<lambda>cl. Token (Client_Credentials (call_client cl)) = k) new))
   \<and> ((\<forall>x'. SetSecret x' \<notin> set ls) \<longrightarrow>
        Secret (Client_Credentials (oauthClient (run w ls (SetConsumerSecret x s)))) = x
        \<and> (\<exists>new. calls (run w ls (SetConsumerSecret x s)) = calls s @ new
                 \<and> list_all (\<lambda>cl. Secret (Client_Credentials (call_client cl)) = x) new))"
proof -
  have K: "(\<forall>k'. SetKey k' \<notin> set ls) \<longrightarrow>
        Token (Client_Credentials (oauthClient (run w ls (SetConsumerKey k s)))) = k
        \<and> (\<exists>new. calls (run w ls (SetConsumerKey k s)) = calls s @ new
                 \<and> list_all (\<lambda>cl. Token (Client_Credentials (call_client cl)) = k) new)"
  proof
    assume a: "\<forall>k'. SetKey k' \<notin> set ls"
    have "\<forall>l\<in>set ls. \<forall>t t'. step w l t = Some t' \<longrightarrow>
            Token (Client_Credentials (oauthClient t')) = Token (Client_Credentials (oauthClient t))"
      using a by (auto intro!: key_kept_step)
    from client_part_run [of ls w "\<lambda>c. Token (Client_Credentials c)" "SetConsumerKey k s", OF this]
    show "Token (Client_Credentials (oauthClient (run w ls (SetConsumerKey k s)))) = k
        \<and> (\<exists>new. calls (run w ls (SetConsumerKey k s)) = calls s @ new
                 \<and> list_all (\<lambda>cl. Token (Client_Credentials (call_client cl)) = k) new)"
      by (simp add: SetConsumerKey_def)
  qed
  have S: "(\<forall>x'. SetSecret x' \<notin> set ls) \<longrightarrow>
        Secret (Client_Credentials (oauthClient (run w ls (SetConsumerSecret x s)))) = x
        \<and> (\<exists>new. calls (run w ls (SetConsumerSecret x s)) = calls s @ new
                 \<and> list_all (\<lambda>cl. Secret (Client_Credentials (call_client cl)) = x) new)"
  proof
    assume a: "\<forall>x'. SetSecret x' \<notin> set ls"
    have "\<forall>l\<in>set ls. \<forall>t t'. step w l t = Some t' \<longrightarrow>
            Secret (Client_Credentials (oauthClient t')) = Secret (Client_Credentials (oauthClient t))"
      using a by (auto intro!: secret_kept_step)
    from client_part_run [of ls w "\<lambda>c. Secret (Client_Credentials c)" "SetConsumerSecret x s", OF this]
    show "Secret (Client_Credentials (oauthClient (run w ls (SetConsumerSecret x s)))) = x
        \<and> (\<exists>new. calls (run w ls (SetConsumerSecret x s)) = calls s @ new
                 \<and> list_all (\<lambda>cl. Secret (Client_Credentials (call_client cl)) = x) new)"
      by (simp add: SetConsumerSecret_def)
  qed
  have R: "apis (SetConsumerKey k s) = apis s
   \<and> apis (SetConsumerSecret x s) = apis s
   \<and> Token (Client_Credentials (oauthClient (SetConsumerKey k s))) = k
   \<and> Secret (Client_Credentials (oauthClient (SetConsumerSecret x s))) = x
   \<and> calls (snd (apiGet w c u f d s)) =
        calls s @ [\<lparr>call_verb = GET, call_client = oauthClient s, call_user = Credentials c,
                    call_url = u, call_form = f\<rparr>]
   \<and> calls (snd (apiPost w c u f d s)) =
        calls s @ [\<lparr>call_verb = POST, call_client = oauthClient s, call_user = Credentials c,
                    call_url = u, call_form = f\<rparr>]
   \<and> (step w l s = Some s' \<and> (\<forall>k'. l \<noteq> SetKey k') \<and> (\<forall>x'. l \<noteq> SetSecret x') \<longrightarrow>
        oauthClient s' = oauthClient s)
   \<and> oauthClient (SetConsumerKey k s) =
        (oauthClient s)\<lparr>Client_Credentials := (Client_Credentials (oauthClient s))\<lparr>Token := k\<rparr>\<rparr>
   \<and> oauthClient (SetConsumerSecret x s) =
        (oauthClient s)\<lparr>Client_Credentials := (Client_Credentials (oauthClient s))\<lparr>Secret := x\<rparr>\<rparr>"
    using oauthClient_step [of w l s s']
    by (simp add: apiGet_calls apiPost_calls) (simp add: SetConsumerKey_def SetConsumerSecret_def)
  from R K S show ?thesis by blast
qed

theorem SetConsumer_process_wide_witness:
  "map (\<lambda>cl. (Client_Credentials (call_client cl), call_user cl))
       (calls (run demo key_then_calls demo_boot)) =
     [(\<lparr>Token = ''K'', Secret = ''S''\<rparr>, \<lparr>Token = ''other'', Secret = ''pass''\<rparr>),
      (\<lparr>Token = ''K'', Secret = ''S''\<rparr>, \<lparr>Token = ''token'', Secret = ''secret''\<rparr>)]
   \<and> oauthClient (run demo (key_then_calls @ [Tick]) demo_boot) =
       oauthClient (run demo key_then_calls demo_boot)
   \<and> apis (SetConsumerKey ''K2'' (run demo key_then_calls demo_boot)) =
       apis (run demo key_then_calls demo_boot)
   \<and> length (calls (run demo (SetSecret ''S'' # two_signed)
                      (SetConsumerKey ''K'' (run demo two_clients demo_boot)))) = 2
   \<and> list_all (\<lambda>cl. Token (Client_Credentials (call_client cl)) = ''K'')
        (calls (run demo (SetSecret ''S'' # two_signed)
                  (SetConsumerKey ''K'' (run demo two_clients demo_boot))))
   \<and> list_all (\<lambda>cl. Secret (Client_Credentials (call_client cl)) = ''S'')
        (calls (run demo (SetKey ''K'' # two_signed)
                  (SetConsumerSecret ''S'' (run demo two_clients demo_boot))))"
proof -
  let ?s = "run demo key_then_calls demo_boot"
  let ?z = "run demo two_clients demo_boot"
  have c: "map (\<lambda>cl. (Client_Credentials (call_client cl), call_user cl)) (calls ?s) =
     [(\<lparr>Token = ''K'', Secret = ''S''\<rparr>, \<lparr>Token = ''other'', Secret = ''pass''\<rparr>),
      (\<lparr>Token = ''K'', Secret = ''S''\<rparr>, \<lparr>Token = ''token'', Secret = ''secret''\<rparr>)]"
    by code_simp
  have "\<not> crashed ?s" by code_simp
  then have t: "step demo Tick ?s = Some (run demo (key_then_calls @ [Tick]) demo_boot)"
    by (simp add: run_snoc step_def)
  from SetConsumer_process_wide
         [of "''K2''" ?s "''S2''" demo demo_api "''/ok''" "[]" 0 Tick
             "run demo (key_then_calls @ [Tick]) demo_boot"] t c
  have A: "oauthClient (run demo (key_then_calls @ [Tick]) demo_boot) = oauthClient ?s
   \<and> apis (SetConsumerKey ''K2'' ?s) = apis ?s"
    by simp
  have z: "calls ?z = []" by code_simp
  have n: "\<forall>k'. SetKey k' \<notin> set (SetSecret ''S'' # two_signed)"
    "\<forall>x'. SetSecret x' \<notin> set (SetKey ''K'' # two_signed)"
    by (simp_all add: two_signed_def)
  have len: "length (calls (run demo (SetSecret ''S'' # two_signed) (SetConsumerKey ''K'' ?z))) = 2"
    by code_simp
  from SetConsumer_process_wide [where k = "''K''" and s = ?z and w = demo
      and ls = "SetSecret ''S'' # two_signed"] n(1) z
  have B: "list_all (\<lambda>cl. Token (Client_Credentials (call_client cl)) = ''K'')
        (calls (run demo (SetSecret ''S'' # two_signed) (SetConsumerKey ''K'' ?z)))"
    by auto
  from SetConsumer_process_wide [where x = "''S''" and s = ?z and w = demo
      and ls = "SetKey ''K'' # two_signed"] n(2) z
  have C: "list_all (\<lambda>cl. Secret (Client_Credentials (call_client cl)) = ''S'')
        (calls (run demo (SetKey ''K'' # two_signed) (SetConsumerSecret ''S'' ?z)))"
    by auto
  from c A len B C show ?thesis by simp
qed

section \<open>The token gate\<close>

text \<open>Every change of the control point of a dispatcher, with what the step changes besides.\<close>

lemma dispatcher_moves:
  assumes "step w l s = Some s'" "pc_of s' i \<noteq> pc_of s i"
  shows "(\<exists>q. pc_of s i = L_recv \<and> pc_of s' i = L_gate q)
    \<or> (\<exists>q T. pc_of s i = L_requeue q T \<and> pc_of s' i = L_sleep T)
    \<or> (\<exists>q e. pc_of s i = L_deliver q e \<and> pc_of s' i = L_recv)
    \<or> (\<exists>q. l = Tau i \<and> pc_of s i = L_gate q \<and> bucket (apis s ! i) = None
            \<and> pc_of s' i = L_exec q \<and> buckets s' = buckets s \<and> apis s' = apis s
            \<and> trace s' = trace s)
    \<or> (\<exists>q p. l = Tau i \<and> pc_of s i = L_gate q \<and> bucket (apis s ! i) = Some p
            \<and> pc_of s' i = L_spend q p \<and> buckets s' = buckets s \<and> apis s' = apis s
            \<and> trace s' = trace s)
    \<or> (\<exists>q p. l = Tau i \<and> pc_of s i = L_spend q p \<and> 1 \<le> tokens (buckets s p)
            \<and> pc_of s' i = L_exec q
            \<and> buckets s' = (buckets s)(p := (buckets s p)\<lparr>tokens := tokens (buckets s p) - 1\<rparr>)
            \<and> apis s' = apis s \<and> trace s' = trace s @ [Spent i])
    \<or> (\<exists>q e. pc_of s i = L_exec q \<and> pc_of s' i = after_exec w q e)
    \<or> (\<exists>T. pc_of s i = L_sleep T \<and> pc_of s' i = L_drain)
    \<or> (pc_of s i = L_drain \<and> pc_of s' i = L_recv)"
  using assms(1)
proof (cases rule: step_cases)
  case (New a b)
  with assms(2) pc_of_New [of a b s i] show ?thesis by simp
next
  case (Sync g h)
  from Sync(2) show ?thesis
  proof (cases rule: sync_cases)
    case (submit j i' k q')
    then have "disp s' = (disp s)[k := L_gate q']" by simp
    from pc_of_disp_update [OF this, of i] assms(2) submit(7,9) show ?thesis
      by (auto simp add: pc_of_def split: if_splits)
  next
    case (requeue k m q' T)
    then have "disp s' = (disp (s\<lparr>disp := (disp s)[k := L_sleep T]\<rparr>))[m := L_gate q']" by simp
    from pc_of_disp_update [OF this, of i]
      pc_of_disp_update [of "s\<lparr>disp := (disp s)[k := L_sleep T]\<rparr>" s k "L_sleep T" i]
      assms(2) requeue(3,6,7,9,10)
    show ?thesis
      by (auto simp add: pc_of_def split: if_splits)
  next
    case (deliver k j q' err q'')
    then have "disp s' = (disp s)[k := L_recv]" by simp
    from pc_of_disp_update [OF this, of i] assms(2) deliver(4,6) show ?thesis
      by (auto simp add: pc_of_def split: if_splits)
  qed
next
  case (Tau k)
  note k = throttledQuery_step_index [OF Tau(2)]
  from Tau(2) show ?thesis
  proof (cases rule: throttledQuery_step_cases)
    case (gate_free q')
    then have "disp s' = (disp s)[k := L_exec q']" by simp
    from pc_of_disp_update [OF this, of i] assms(2) have "k = i" "pc_of s' i = L_exec q'"
      by (auto split: if_splits)
    with gate_free k Tau(1) show ?thesis
      by (simp add: pc_of_def)
  next
    case (gate_call q' p)
    then have "disp s' = (disp s)[k := L_spend q' p]" by simp
    from pc_of_disp_update [OF this, of i] assms(2) have "k = i" "pc_of s' i = L_spend q' p"
      by (auto split: if_splits)
    with gate_call k Tau(1) show ?thesis
      by (simp add: pc_of_def)
  next
    case (spend q' p)
    then have "disp s' = (disp s)[k := L_exec q']" by simp
    from pc_of_disp_update [OF this, of i] assms(2) have "k = i" "pc_of s' i = L_exec q'"
      by (auto split: if_splits)
    with spend k Tau(1) show ?thesis
      by (simp add: pc_of_def)
  next
    case (exec q' err s1)
    then have "disp s' = (disp s)[k := after_exec w q' err]" by simp
    from pc_of_disp_update [OF this, of i] assms(2)
    have "k = i" "pc_of s' i = after_exec w q' err"
      by (auto split: if_splits)
    with exec(1) k have "pc_of s i = L_exec q' \<and> pc_of s' i = after_exec w q' err"
      by (simp add: pc_of_def)
    then show ?thesis by blast
  next
    case (sleep T)
    then have "disp s' = (disp s)[k := L_drain]" by simp
    from pc_of_disp_update [OF this, of i] assms(2) have "k = i" "pc_of s' i = L_drain"
      by (auto split: if_splits)
    with sleep k show ?thesis
      by (simp add: pc_of_def)
  next
    case drain_nil
    then have "pc_of s' i = pc_of s i" by (simp add: pc_of_def)
    with assms(2) show ?thesis by simp
  next
    case (drain p)
    then have "disp s' = (disp s)[k := L_recv]" by simp
    from pc_of_disp_update [OF this, of i] assms(2) have "k = i" "pc_of s' i = L_recv"
      by (auto split: if_splits)
    with drain k show ?thesis
      by (simp add: pc_of_def)
  qed
next
  case quiet
  then have "pc_of s' i = pc_of s i" by (simp add: pc_of_def)
  with assms(2) show ?thesis by simp
qed

lemma after_exec_not_gate:
  "after_exec w q e \<noteq> L_exec q'" "after_exec w q e \<noteq> L_spend q' p"
  "L_exec q' \<noteq> after_exec w q e" "L_spend q' p \<noteq> after_exec w q e"
  by (cases rule: after_exec_cases [of w q e]; simp)+

lemma exec_entered:
  assumes "step w l s = Some s'" "pc_of s' i = L_exec q" "pc_of s i \<noteq> L_exec q"
  shows "l = Tau i
    \<and> ((pc_of s i = L_gate q \<and> bucket (apis s ! i) = None \<and> buckets s' = buckets s
          \<and> apis s' = apis s \<and> trace s' = trace s)
       \<or> (\<exists>p. pc_of s i = L_spend q p \<and> 1 \<le> tokens (buckets s p)
             \<and> buckets s' = (buckets s)(p := (buckets s p)\<lparr>tokens := tokens (buckets s p) - 1\<rparr>)
             \<and> apis s' = apis s \<and> trace s' = trace s @ [Spent i]))"
  using dispatcher_moves [OF assms(1), of i] assms(2,3)
  by (auto simp add: after_exec_not_gate)

lemma spend_entered:
  assumes "step w l s = Some s'" "pc_of s' i = L_spend q p" "pc_of s i \<noteq> L_spend q p"
  shows "l = Tau i \<and> pc_of s i = L_gate q \<and> bucket (apis s ! i) = Some p
    \<and> buckets s' = buckets s \<and> apis s' = apis s \<and> trace s' = trace s"
  using dispatcher_moves [OF assms(1), of i] assms(2,3)
  by (auto simp add: after_exec_not_gate)

lemma spend_waits:
  assumes "step w l s = Some s'" "pc_of s i = L_spend q p"
  shows "pc_of s' i = L_spend q p
    \<or> (l = Tau i \<and> pc_of s' i = L_exec q \<and> 1 \<le> tokens (buckets s p)
        \<and> buckets s' = (buckets s)(p := (buckets s p)\<lparr>tokens := tokens (buckets s p) - 1\<rparr>)
        \<and> trace s' = trace s @ [Spent i])"
proof (cases "pc_of s' i = pc_of s i")
  case True
  with assms(2) show ?thesis by simp
next
  case False
  from dispatcher_moves [OF assms(1) False] assms(2) show ?thesis by auto
qed

lemma gate_step:
  assumes "\<not> crashed s \<and> i < length (apis s) \<and> i < length (disp s)"
  shows "(disp s ! i = L_gate q \<longrightarrow>
           step w (Tau i) s =
             Some (s\<lparr>disp := (disp s)[i := (case bucket (apis s ! i) of
                                               None \<Rightarrow> L_exec q | Some p \<Rightarrow> L_spend q p)]\<rparr>))
        \<and> (disp s ! i = L_spend q p \<longrightarrow>
              step w (Tau i) s =
                (if 1 \<le> tokens (buckets s p)
                 then Some (s\<lparr>buckets := (buckets s)
                                 (p := (buckets s p)\<lparr>tokens := tokens (buckets s p) - 1\<rparr>),
                              disp := (disp s)[i := L_exec q],
                              trace := trace s @ [Spent i]\<rparr>)
                 else None))"
  using assms
  by (auto simp add: step_def throttledQuery_step_def SpendToken_def split: option.splits)

text \<open>
  C4. When the dispatcher of client \<open>i\<close> stands at the gate it can always move, and the move
  is decided by the field \<^verbatim>\<open>c.bucket\<close> as it is then: with no bucket it goes straight to the
  execution of the query and nothing else changes; with a bucket at address \<open>p\<close> it goes to
  wait for a token of that bucket. While it waits, it can move exactly when bucket \<open>p\<close> holds
  a token, which the move takes; no other event of the process ends the wait, whatever
  \<^verbatim>\<open>c.bucket\<close> has become. The wait is entered only from the gate with a bucket, and the
  execution is entered only from the gate with no bucket, with no bucket or trace touched, or
  from the wait with one token taken.
\<close>

theorem token_gate:
  "(\<not> crashed s \<and> i < length (apis s) \<and> i < length (disp s) \<and> disp s ! i = L_gate q \<longrightarrow>
      step w (Tau i) s =
        Some (s\<lparr>disp := (disp s)[i := (case bucket (apis s ! i) of
                                          None \<Rightarrow> L_exec q | Some p \<Rightarrow> L_spend q p)]\<rparr>))
   \<and> (\<not> crashed s \<and> i < length (apis s) \<and> i < length (disp s) \<and> disp s ! i = L_spend q p \<longrightarrow>
      step w (Tau i) s =
        (if 1 \<le> tokens (buckets s p)
         then Some (s\<lparr>buckets := (buckets s)
                         (p := (buckets s p)\<lparr>tokens := tokens (buckets s p) - 1\<rparr>),
                      disp := (disp s)[i := L_exec q],
                      trace := trace s @ [Spent i]\<rparr>)
         else None))
   \<and> (step w l s = Some s' \<and> pc_of s i = L_spend q p \<longrightarrow>
        pc_of s' i = L_spend q p
        \<or> (l = Tau i \<and> pc_of s' i = L_exec q \<and> 1 \<le> tokens (buckets s p)
            \<and> buckets s' = (buckets s)(p := (buckets s p)\<lparr>tokens := tokens (buckets s p) - 1\<rparr>)
            \<and> trace s' = trace s @ [Spent i]))
   \<and> (step w l s = Some s' \<and> pc_of s' i = L_spend q p \<and> pc_of s i \<noteq> L_spend q p \<longrightarrow>
        l = Tau i \<and> pc_of s i = L_gate q \<and> bucket (apis s ! i) = Some p
        \<and> buckets s' = buckets s \<and> apis s' = apis s \<and> trace s' = trace s)
   \<and> (step w l s = Some s' \<and> pc_of s' i = L_exec q \<and> pc_of s i \<noteq> L_exec q \<longrightarrow>
        l = Tau i
        \<and> ((pc_of s i = L_gate q \<and> bucket (apis s ! i) = None \<and> buckets s' = buckets s
              \<and> apis s' = apis s \<and> trace s' = trace s)
           \<or> (\<exists>p'. pc_of s i = L_spend q p' \<and> 1 \<le> tokens (buckets s p')
                 \<and> buckets s' =
                     (buckets s)(p' := (buckets s p')\<lparr>tokens := tokens (buckets s p') - 1\<rparr>)
                 \<and> apis s' = apis s \<and> trace s' = trace s @ [Spent i])))"
  using gate_step [of s i q w p] spend_waits [of w l s s' i q p]
    spend_entered [of w l s s' i q p] exec_entered [of w l s s' i q]
  by blast


theorem token_gate_witness:
  "step demo (Tau 0) (run demo at_gate demo_boot) =
     Some ((run demo at_gate demo_boot)
             \<lparr>disp := (disp (run demo at_gate demo_boot))[0 := L_exec first_query]\<rparr>)
   \<and> bucket (apis (run demo at_gate_limited demo_boot) ! 0) = Some 0
   \<and> pc_of (run demo (at_gate_limited @ [Tau 0]) demo_boot) 0 = L_spend first_query 0
   \<and> tokens (buckets (run demo (at_gate_limited @ [Tau 0, Tau 0]) demo_boot) 0) = 4
   \<and> trace (run demo (at_gate_limited @ [Tau 0, Tau 0]) demo_boot) =
        trace (run demo (at_gate_limited @ [Tau 0]) demo_boot) @ [Spent 0]
   \<and> bucket (apis (run demo gate_wait demo_boot) ! 0) = None
   \<and> step demo (Tau 0) (run demo gate_wait demo_boot) = None
   \<and> pc_of (run demo (gate_wait @ [Tick]) demo_boot) 0 = L_spend first_query 0"
proof -
  let ?s = "run demo at_gate demo_boot"
  let ?t = "run demo at_gate_limited demo_boot"
  let ?u = "run demo (at_gate_limited @ [Tau 0]) demo_boot"
  let ?u' = "run demo (at_gate_limited @ [Tau 0, Tau 0]) demo_boot"
  let ?v = "run demo gate_wait demo_boot"
  let ?v' = "run demo (gate_wait @ [Tick]) demo_boot"
  have hs: "\<not> crashed ?s \<and> 0 < length (apis ?s) \<and> 0 < length (disp ?s)
             \<and> disp ?s ! 0 = L_gate first_query" "bucket (apis ?s ! 0) = None"
    by code_simp+
  from token_gate [of ?s 0 first_query demo] hs
  have A: "step demo (Tau 0) ?s = Some (?s\<lparr>disp := (disp ?s)[0 := L_exec first_query]\<rparr>)"
    by simp
  have ht: "\<not> crashed ?t \<and> 0 < length (apis ?t) \<and> 0 < length (disp ?t)
             \<and> disp ?t ! 0 = L_gate first_query" "bucket (apis ?t ! 0) = Some 0"
    by code_simp+
  from token_gate [of ?t 0 first_query demo] ht
  have "step demo (Tau 0) ?t = Some (?t\<lparr>disp := (disp ?t)[0 := L_spend first_query 0]\<rparr>)"
    by simp
  then have tu: "step demo (Tau 0) ?t = Some ?u"
    by (simp add: run_snoc)
  have pu: "pc_of ?u 0 = L_spend first_query 0" "pc_of ?t 0 \<noteq> L_spend first_query 0"
    by code_simp+
  from token_gate [of ?t 0 first_query demo 0 "Tau 0" ?u] tu pu
  have B: "bucket (apis ?t ! 0) = Some 0"
    by blast
  have hu: "\<not> crashed ?u \<and> 0 < length (apis ?u) \<and> 0 < length (disp ?u)
             \<and> disp ?u ! 0 = L_spend first_query 0" "tokens (buckets ?u 0) = 5"
    by code_simp+
  from token_gate [of ?u 0 first_query demo 0] hu
  have "step demo (Tau 0) ?u =
          Some (?u\<lparr>buckets := (buckets ?u)(0 := (buckets ?u 0)\<lparr>tokens := tokens (buckets ?u 0) - 1\<rparr>),
                   disp := (disp ?u)[0 := L_exec first_query],
                   trace := trace ?u @ [Spent 0]\<rparr>)"
    by simp
  then have uu: "step demo (Tau 0) ?u = Some ?u'"
    using run_snoc [of demo "at_gate_limited @ [Tau 0]" "Tau 0" demo_boot] by simp
  have pu': "pc_of ?u' 0 = L_exec first_query" "pc_of ?u 0 \<noteq> L_exec first_query"
    "pc_of ?u 0 \<noteq> L_gate first_query"
    by code_simp+
  from token_gate [of ?u 0 first_query demo 0 "Tau 0" ?u'] uu pu' pu(1)
  have "buckets ?u' = (buckets ?u)(0 := (buckets ?u 0)\<lparr>tokens := tokens (buckets ?u 0) - 1\<rparr>)
      \<and> trace ?u' = trace ?u @ [Spent 0]"
    by auto
  with hu(2) have C: "tokens (buckets ?u' 0) = 4 \<and> trace ?u' = trace ?u @ [Spent 0]"
    by simp
  have hv: "\<not> crashed ?v \<and> 0 < length (apis ?v) \<and> 0 < length (disp ?v)
             \<and> disp ?v ! 0 = L_spend first_query 0" "tokens (buckets ?v 0) = 0"
    "bucket (apis ?v ! 0) = None" "pc_of ?v 0 = L_spend first_query 0"
    by code_simp+
  from token_gate [of ?v 0 first_query demo 0] hv(1,2)
  have D: "step demo (Tau 0) ?v = None"
    by simp
  from hv(1) have "step demo Tick ?v = Some ?v'"
    by (simp add: run_snoc step_def)
  with token_gate [of ?v 0 first_query demo 0 Tick ?v'] hv(4)
  have E: "pc_of ?v' 0 = L_spend first_query 0"
    by blast
  from A B pu(1) C hv(3) D E show ?thesis by simp
qed

section \<open>Errors that are not rate-limit rejections\<close>

lemma plain_error_abandoned:
  "after_exec w q (Some (TransportError m)) = L_recv"
  "after_exec w q (Some (DecodeError m)) = L_recv"
  "after_exec w q (Some (Errorf m)) = L_recv"
  "\<not> fst (RateLimitCheck w a) \<Longrightarrow> after_exec w q (Some (ApiError_ptr a)) = L_recv"
  "after_exec w q (Some e) \<noteq> L_deliver q' err"
  by (auto simp add: after_exec_def split: prod.splits error.splits)

text \<open>
  A result channel that no goroutine will write any more: no dispatcher and no submitting caller
  holds a query with it, and channels made later are different.
\<close>

lemma list_all_update: "list_all P xs \<Longrightarrow> P x \<Longrightarrow> list_all P (xs[i := x])"
  using set_update_subset_insert [of xs i x] by (auto simp add: list_all_iff)

lemma list_all_nth: "list_all P xs \<Longrightarrow> i < length xs \<Longrightarrow> P (xs ! i)"
  by (simp add: list_all_length)

lemma forgotten_step:
  assumes "forgotten ch s" "step w l s = Some s'"
  shows "forgotten ch s'"
proof -
  from assms(1) have ch: "ch < nchan s" and D: "list_all (\<lambda>p. pc_chan p \<noteq> Some ch) (disp s)"
    and C: "list_all (\<lambda>u. caller_chan u \<noteq> Some ch) (callers s)"
    and R: "results_on ch (trace s) = []"
    by (simp_all add: forgotten_def)
  show ?thesis
  proof (cases l)
    case (New a b)
    with assms(2) ch D C R show ?thesis
      by (auto simp add: step_def forgotten_def NewTwitterApi_def Let_def split: if_splits)
  next
    case (Request k u f d m)
    with assms(2) ch D C R show ?thesis
      by (auto simp add: step_def forgotten_def split: if_splits)
  next
    case (Sync g h)
    with assms(2) have "sync g h s = Some s'" by (simp add: step_def split: if_splits)
    then show ?thesis
    proof (cases rule: sync_cases)
      case (submit j i' k q)
      from list_all_nth [OF C submit(3)] submit(4) have "response_ch q \<noteq> ch" by simp
      with submit(10) ch D C R show ?thesis
        by (simp add: forgotten_def list_all_update)
    next
      case (requeue k m q T)
      from list_all_nth [OF D requeue(6)] requeue(9) have "response_ch q \<noteq> ch" by simp
      with requeue(11) ch D C R show ?thesis
        by (simp add: forgotten_def list_all_update)
    next
      case (deliver k j q err q')
      from list_all_nth [OF D deliver(4)] deliver(6) have "response_ch q \<noteq> ch" by simp
      with deliver(9) ch D C R show ?thesis
        by (simp add: forgotten_def list_all_update)
    qed
  next
    case (Tau k)
    with assms(2) have st: "throttledQuery_step w k s = Some s'"
      by (simp add: step_def split: if_splits)
    note k = throttledQuery_step_index [OF st]
    from st show ?thesis
    proof (cases rule: throttledQuery_step_cases)
      case (gate_free q)
      from list_all_nth [OF D] k gate_free(1) have "response_ch q \<noteq> ch" by fastforce
      with gate_free(3) ch D C R show ?thesis
        by (simp add: forgotten_def list_all_update)
    next
      case (gate_call q p)
      from list_all_nth [OF D] k gate_call(1) have "response_ch q \<noteq> ch" by fastforce
      with gate_call(3) ch D C R show ?thesis
        by (simp add: forgotten_def list_all_update)
    next
      case (spend q p)
      from list_all_nth [OF D] k spend(1) have "response_ch q \<noteq> ch" by fastforce
      with spend(3) ch D C R show ?thesis
        by (simp add: forgotten_def list_all_update)
    next
      case (exec q err s1)
      from list_all_nth [OF D] k exec(1) have "response_ch q \<noteq> ch" by fastforce
      then have "pc_chan (after_exec w q err) \<noteq> Some ch"
        by (cases rule: after_exec_cases [of w q err]) simp_all
      with exec(3) execQuery_frame(3,4) [OF exec(2)] ch D C R show ?thesis
        by (simp add: forgotten_def list_all_update)
    next
      case (sleep T)
      with ch D C R show ?thesis
        by (simp add: forgotten_def list_all_update)
    next
      case drain_nil
      with assms(1) show ?thesis by (simp add: forgotten_def)
    next
      case (drain b)
      with ch D C R show ?thesis
        by (simp add: forgotten_def list_all_update)
    qed
  qed (use assms in \<open>auto simp add: step_def forgotten_def SetConsumerKey_def
         SetConsumerSecret_def split: if_splits option.splits sum.splits\<close>)
qed

lemma forgotten_run: "forgotten ch s \<Longrightarrow> forgotten ch (run w ls s)"
  by (induction ls arbitrary: s) (auto split: option.splits dest: forgotten_step)

lemma lost_pass_forgotten: "forgotten (response_ch lost_query) (run demo lost_pass demo_boot)"
  unfolding forgotten_def by code_simp

text \<open>
  C1. A GET for which the transport fails. The pass of the dispatcher ends at the head of the
  loop with the error recorded as the outcome of \<^verbatim>\<open>execQuery\<close>, and nothing has been sent on
  the result channel of the query: the caller still waits, and whatever happens next in the
  process, nothing is ever sent on that channel.
\<close>

theorem transport_error_not_delivered:
  "trace (run demo lost_pass demo_boot) =
     [Enqueued 0 lost_query, Received 0 lost_query,
      Executed 0 lost_query (Some (TransportError ''no route to host''))]
   \<and> disp (run demo lost_pass demo_boot) = [L_recv]
   \<and> callers (run demo lost_pass demo_boot) = [Waiting lost_query]
   \<and> results_on (response_ch lost_query) (trace (run demo ls (run demo lost_pass demo_boot))) = []"
proof -
  have "trace (run demo lost_pass demo_boot) =
     [Enqueued 0 lost_query, Received 0 lost_query,
      Executed 0 lost_query (Some (TransportError ''no route to host''))]
   \<and> disp (run demo lost_pass demo_boot) = [L_recv]
   \<and> callers (run demo lost_pass demo_boot) = [Waiting lost_query]"
    by code_simp
  with forgotten_run [OF lost_pass_forgotten, of demo ls] show ?thesis
    by (simp add: forgotten_def)
qed

lemma missing_pass_forgotten: "forgotten (response_ch missing_query) (run demo missing_pass demo_boot)"
  unfolding forgotten_def by code_simp

text \<open>
  C2. A POST answered with status 404, which is not a rate-limit rejection. The query has been
  executed, the dispatcher is back at the head of its loop, and the number of results written to
  the result channel of the query is 0, and stays 0 whatever happens next in the process.
\<close>

theorem api_error_no_result:
  "executed 0 (trace (run demo missing_pass demo_boot)) = [missing_query]
   \<and> pc_of (run demo missing_pass demo_boot) 0 = L_recv
   \<and> callers (run demo missing_pass demo_boot) = [Waiting missing_query]
   \<and> length (results_on (response_ch missing_query)
               (trace (run demo ls (run demo missing_pass demo_boot)))) = 0"
proof -
  have "executed 0 (trace (run demo missing_pass demo_boot)) = [missing_query]
   \<and> pc_of (run demo missing_pass demo_boot) 0 = L_recv
   \<and> callers (run demo missing_pass demo_boot) = [Waiting missing_query]"
    by code_simp
  with forgotten_run [OF missing_pass_forgotten, of demo ls] show ?thesis
    by (simp add: forgotten_def)
qed

section \<open>A rate-limit rejection\<close>

lemma requeue_stuck_step:
  assumes "wf s" "pc_of s i = L_requeue q T" "step w l s = Some s'"
  shows "pc_of s' i = L_requeue q T"
proof -
  from assms(2) have i: "i < length (disp s)" "disp s ! i = L_requeue q T"
    by (auto simp add: pc_of_def split: if_splits)
  show ?thesis
  proof (cases l)
    case (New a b)
    with assms(3) i show ?thesis
      by (auto simp add: step_def NewTwitterApi_def Let_def pc_of_def nth_append split: if_splits)
  next
    case (Sync g h)
    with assms(3) have "sync g h s = Some s'"
      by (simp add: step_def split: if_splits)
    then show ?thesis
    proof (cases rule: sync_cases)
      case (submit j i' k q')
      with i show ?thesis by (auto simp add: pc_of_def nth_list_update)
    next
      case (requeue k m q' T')
      with wf_queue_inj [OF assms(1), of k m] show ?thesis by simp
    next
      case (deliver k j q' err q'')
      with i show ?thesis by (auto simp add: pc_of_def nth_list_update)
    qed
  next
    case (Tau k)
    with assms(3) have st: "throttledQuery_step w k s = Some s'"
      by (simp add: step_def split: if_splits)
    show ?thesis
    proof (cases "k = i")
      case True
      with throttledQuery_step_shape(9) [OF st] i show ?thesis by blast
    next
      case False
      with throttledQuery_step_shape(7) [OF st, of i] assms(2) show ?thesis by simp
    qed
  qed (use assms(3) i in \<open>auto simp add: step_def pc_of_def SetConsumerKey_def SetConsumerSecret_def
         split: if_splits option.splits sum.splits\<close>)
qed

lemma requeue_stuck:
  "wf s \<Longrightarrow> pc_of s i = L_requeue q T \<Longrightarrow> pc_of (run w ls s) i = L_requeue q T"
proof (induction ls arbitrary: s)
  case Nil
  then show ?case by simp
next
  case (Cons l ls)
  show ?case
  proof (cases "step w l s")
    case None
    with Cons show ?thesis by simp
  next
    case (Some s')
    with Cons.prems have "wf s'" "pc_of s' i = L_requeue q T"
      by (auto intro: wf_step requeue_stuck_step)
    with Cons.IH Some show ?thesis by simp
  qed
qed

lemma limit_pass_pc: "pc_of (run demo limit_pass demo_boot) 0 = L_requeue limit_query 100"
  by code_simp

text \<open>
  C3. A GET whose answer is a rate-limit rejection (status 429, window reset at instant 100) on a
  client made by \<^verbatim>\<open>NewTwitterApi\<close>. After the query has been received and executed the
  dispatcher stands at the send \<^verbatim>\<open>c.QueryQueue <- q\<close> (read as the field
  \<^verbatim>\<open>queryQueue\<close>), nothing has been delivered, and the caller waits. Whatever happens next
  in the process, the dispatcher stays at that send: the queue has no capacity and the dispatcher
  is its only receiver, so the sleep, the drain and the next round of the loop are never reached.
\<close>

theorem rate_limited_pass_blocks:
  "trace (run demo limit_pass demo_boot) =
     [Enqueued 0 limit_query, Received 0 limit_query,
      Executed 0 limit_query
        (Some (ApiError_ptr \<lparr>ApiError_StatusCode = 429,
                              ApiError_Header = [(''X-Rate-Limit-Reset'', ''100'')],
                              ApiError_Body = []\<rparr>))]
   \<and> callers (run demo limit_pass demo_boot) = [Waiting limit_query]
   \<and> disp (run demo ls (run demo limit_pass demo_boot)) ! 0 = L_requeue limit_query 100"
proof -
  have "wf (run demo limit_pass demo_boot)"
    by (simp add: demo_boot_def wf_run wf_boot)
  from requeue_stuck [OF this limit_pass_pc, of demo ls]
  have "disp (run demo ls (run demo limit_pass demo_boot)) ! 0 = L_requeue limit_query 100"
    by (simp add: pc_of_def split: if_splits)
  moreover have "trace (run demo limit_pass demo_boot) =
     [Enqueued 0 limit_query, Received 0 limit_query,
      Executed 0 limit_query
        (Some (ApiError_ptr \<lparr>ApiError_StatusCode = 429,
                              ApiError_Header = [(''X-Rate-Limit-Reset'', ''100'')],
                              ApiError_Body = []\<rparr>))]"
    by code_simp
  moreover have "callers (run demo limit_pass demo_boot) = [Waiting limit_query]"
    by code_simp
  ultimately show ?thesis by simp
qed

section \<open>The order of dispatch\<close>

lemma subseq_snoc_right: "subseq xs ys \<Longrightarrow> subseq xs (ys @ [y])"
  by (simp add: list_emb_append_mono [of _ xs ys "[]" "[y]", simplified])

lemma subseq_snoc_last:
  "subseq xs (butlast ys) \<Longrightarrow> ys \<noteq> [] \<Longrightarrow> subseq (xs @ [last ys]) ys"
  using list_emb_append_mono [of "(=)" xs "butlast ys" "[last ys]" "[last ys]"] by simp

lemma subseq_butlastD: "subseq xs (butlast ys) \<Longrightarrow> subseq xs ys"
  using subseq_order.trans [of xs "butlast ys" ys] prefixeq_butlast [of ys]
  by (simp add: prefix_imp_subseq)

lemma fifo_inv_cong:
  "trace s' = trace s \<Longrightarrow> pc_of s' i = pc_of s i \<Longrightarrow> fifo_inv s' i = fifo_inv s i"
  by (simp add: fifo_inv_def)

lemma fifo_inv_other:
  assumes "fifo_inv s i" "pc_of s' i = pc_of s i"
    "received i (trace s') = received i (trace s)"
    "executed i (trace s') = executed i (trace s)"
    "delivered i (trace s') = delivered i (trace s)"
  shows "fifo_inv s' i"
  using assms by (simp add: fifo_inv_def)

lemma fifo_step:
  assumes "wf s" "fifo_inv s i" "step w l s = Some s'"
  shows "fifo_inv s' i"
  using assms(3)
proof (cases rule: step_cases)
  case (New a b)
  from New(2) have "trace s' = trace s" "pc_of s' i = pc_of s i"
    by (simp_all add: pc_of_New) (simp add: NewTwitterApi_def Let_def)
  with assms(2) fifo_inv_cong [of s' s i] show ?thesis
    by simp
next
  case (Sync g h)
  from Sync(2) show ?thesis
  proof (cases rule: sync_cases)
    case (submit j i' k q)
    show ?thesis
    proof (cases "k = i")
      case True
      with assms(2) submit show ?thesis
        by (auto simp add: fifo_inv_def Let_def pc_of_def)
    next
      case False
      with submit show ?thesis
        by (intro fifo_inv_other [OF assms(2)]) (simp_all add: pc_of_def)
    qed
  next
    case (requeue k m q T)
    with wf_queue_inj [OF assms(1), of k m] show ?thesis by simp
  next
    case (deliver k j q err q')
    show ?thesis
    proof (cases "k = i")
      case True
      with assms(2) deliver show ?thesis
        by (auto simp add: fifo_inv_def Let_def pc_of_def subseq_snoc_last)
    next
      case False
      with deliver show ?thesis
        by (intro fifo_inv_other [OF assms(2)]) (simp_all add: pc_of_def)
    qed
  qed
next
  case (Tau k)
  note k = throttledQuery_step_index [OF Tau(2)]
  from Tau(2) show ?thesis
  proof (cases rule: throttledQuery_step_cases)
    case (gate_free q)
    show ?thesis
    proof (cases "k = i")
      case True
      with assms(2) gate_free k show ?thesis
        by (auto simp add: fifo_inv_def Let_def pc_of_def)
    next
      case False
      with gate_free show ?thesis
        by (intro fifo_inv_other [OF assms(2)]) (simp_all add: pc_of_def)
    qed
  next
    case (gate_call q p)
    show ?thesis
    proof (cases "k = i")
      case True
      with assms(2) gate_call k show ?thesis
        by (auto simp add: fifo_inv_def Let_def pc_of_def)
    next
      case False
      with gate_call show ?thesis
        by (intro fifo_inv_other [OF assms(2)]) (simp_all add: pc_of_def)
    qed
  next
    case (spend q p)
    show ?thesis
    proof (cases "k = i")
      case True
      with assms(2) spend k show ?thesis
        by (auto simp add: fifo_inv_def Let_def pc_of_def)
    next
      case False
      with spend show ?thesis
        by (intro fifo_inv_other [OF assms(2)]) (simp_all add: pc_of_def)
    qed
  next
    case (exec q err s1)
    have tr: "trace s' = trace s @ [Executed k q err]"
      and d: "disp s' = (disp s)[k := after_exec w q err]"
      using exec(3) by simp_all
    show ?thesis
    proof (cases "k = i")
      case True
      with assms(2) exec(1) k have R: "received i (trace s) = executed i (trace s) @ [q]"
        and S: "subseq (delivered i (trace s)) (executed i (trace s))"
        by (simp_all add: fifo_inv_def Let_def pc_of_def)
      from True d k have p: "pc_of s' i = after_exec w q err"
        by (simp add: pc_of_def)
      show ?thesis
        by (cases rule: after_exec_cases [of w q err])
           (use R S tr p True in \<open>auto simp add: fifo_inv_def Let_def subseq_snoc_right\<close>)
    next
      case False
      with tr d show ?thesis
        by (intro fifo_inv_other [OF assms(2)]) (simp_all add: pc_of_def)
    qed
  next
    case (sleep T)
    show ?thesis
    proof (cases "k = i")
      case True
      with assms(2) sleep k show ?thesis
        by (auto simp add: fifo_inv_def Let_def pc_of_def)
    next
      case False
      with sleep show ?thesis
        by (intro fifo_inv_other [OF assms(2)]) (simp_all add: pc_of_def)
    qed
  next
    case drain_nil
    with assms(2) fifo_inv_cong [of s' s i] show ?thesis
      by (simp add: pc_of_def)
  next
    case (drain b)
    show ?thesis
    proof (cases "k = i")
      case True
      with assms(2) drain k show ?thesis
        by (auto simp add: fifo_inv_def Let_def pc_of_def)
    next
      case False
      with drain show ?thesis
        by (intro fifo_inv_other [OF assms(2)]) (simp_all add: pc_of_def)
    qed
  qed
next
  case quiet
  with assms(2) fifo_inv_cong [of s' s i] show ?thesis
    by (simp add: pc_of_def)
qed

lemma fifo_run: "wf s \<Longrightarrow> fifo_inv s i \<Longrightarrow> fifo_inv (run w ls s) i"
proof (induction ls arbitrary: s)
  case Nil
  then show ?case by simp
next
  case (Cons l ls)
  show ?case
  proof (cases "step w l s")
    case None
    with Cons show ?thesis by simp
  next
    case (Some s')
    with Cons.prems have "wf s'" "fifo_inv s' i"
      by (auto intro: wf_step fifo_step)
    with Cons.IH Some show ?thesis by simp
  qed
qed

lemma fifo_boot: "fifo_inv (boot st) i"
  by (simp add: fifo_inv_def Let_def boot_def pc_of_def)

lemma fifo_inv_order:
  assumes "fifo_inv s i"
  shows "prefix (executed i (trace s)) (received i (trace s))"
    "length (received i (trace s)) \<le> Suc (length (executed i (trace s)))"
    "subseq (delivered i (trace s)) (executed i (trace s))"
  using assms
  by (auto simp add: fifo_inv_def Let_def split: pc.splits dest: subseq_butlastD)

lemma enq_step:
  assumes "wf s" "received i (trace s) = enqueued i (trace s)" "step w l s = Some s'"
  shows "received i (trace s') = enqueued i (trace s')"
  using assms(3)
proof (cases rule: step_cases)
  case (New a b)
  with assms(2) show ?thesis by (simp add: NewTwitterApi_def Let_def)
next
  case (Sync g h)
  from Sync(2) show ?thesis
  proof (cases rule: sync_cases)
    case (submit j i' k q)
    with wf_queue_inj [OF assms(1), of i' k] assms(2) show ?thesis by simp
  next
    case (requeue k m q T)
    with wf_queue_inj [OF assms(1), of k m] show ?thesis by simp
  next
    case (deliver k j q err q')
    with assms(2) show ?thesis by simp
  qed
next
  case (Tau k)
  from Tau(2) show ?thesis
  proof (cases rule: throttledQuery_step_cases)
    case (exec q err s1)
    with assms(2) show ?thesis by simp
  qed (use assms(2) in simp_all)
next
  case quiet
  with assms(2) show ?thesis by simp
qed

lemma calls_step:
  assumes "map call_sig (calls s) = sent_out (trace s)" "step w l s = Some s'"
  shows "map call_sig (calls s') = sent_out (trace s')"
  using assms(2)
proof (cases rule: step_cases)
  case (New a b)
  with assms(1) show ?thesis by (simp add: NewTwitterApi_def Let_def)
next
  case (Sync g h)
  from Sync(2) show ?thesis
    by (cases rule: sync_cases) (use assms(1) in \<open>simp_all add: sent_out_def\<close>)
next
  case (Tau k)
  from Tau(2) show ?thesis
  proof (cases rule: throttledQuery_step_cases)
    case (exec q err s1)
    with assms(1) execQuery_sig [OF exec(2)] show ?thesis
      by (simp add: sent_out_def)
  qed (use assms(1) in \<open>simp_all add: sent_out_def\<close>)
next
  case quiet
  with assms(1) show ?thesis by simp
qed

lemma answered_append [simp]: "answered i (es @ fs) = answered i es @ answered i fs"
  by (simp add: answered_def)

lemma answered_Nil [simp]: "answered i [] = []"
  by (simp add: answered_def)

lemma answered_Cons [simp]:
  "answered i (e # es) =
     (case e of Executed j q err \<Rightarrow> if j = i \<and> err = None then [q] else [] | _ \<Rightarrow> [])
       @ answered i es"
  by (simp add: answered_def)

lemma deliver_inv_cong:
  "trace s' = trace s \<Longrightarrow> pc_of s' i = pc_of s i \<Longrightarrow> deliver_inv s' i = deliver_inv s i"
  by (simp add: deliver_inv_def split: pc.splits)

lemma deliver_inv_other:
  assumes "deliver_inv s i" "pc_of s' i = pc_of s i"
    "answered i (trace s') = answered i (trace s)"
    "delivered i (trace s') = delivered i (trace s)"
  shows "deliver_inv s' i"
  using assms by (simp add: deliver_inv_def split: pc.splits)

lemma deliver_step:
  assumes "wf s" "deliver_inv s i" "step w l s = Some s'"
  shows "deliver_inv s' i"
  using assms(3)
proof (cases rule: step_cases)
  case (New a b)
  from New(2) have "trace s' = trace s" "pc_of s' i = pc_of s i"
    by (simp_all add: pc_of_New) (simp add: NewTwitterApi_def Let_def)
  with assms(2) deliver_inv_cong [of s' s i] show ?thesis
    by simp
next
  case (Sync g h)
  from Sync(2) show ?thesis
  proof (cases rule: sync_cases)
    case (submit j i' k q)
    show ?thesis
    proof (cases "k = i")
      case True
      with assms(2) submit show ?thesis
        by (auto simp add: deliver_inv_def pc_of_def)
    next
      case False
      with submit show ?thesis
        by (intro deliver_inv_other [OF assms(2)]) (simp_all add: pc_of_def)
    qed
  next
    case (requeue k m q T)
    with wf_queue_inj [OF assms(1), of k m] show ?thesis by simp
  next
    case (deliver k j q err q')
    show ?thesis
    proof (cases "k = i")
      case True
      with assms(2) deliver show ?thesis
        by (auto simp add: deliver_inv_def pc_of_def)
    next
      case False
      with deliver show ?thesis
        by (intro deliver_inv_other [OF assms(2)]) (simp_all add: pc_of_def)
    qed
  qed
next
  case (Tau k)
  note k = throttledQuery_step_index [OF Tau(2)]
  from Tau(2) show ?thesis
  proof (cases rule: throttledQuery_step_cases)
    case (gate_free q)
    show ?thesis
    proof (cases "k = i")
      case True
      with assms(2) gate_free k show ?thesis
        by (auto simp add: deliver_inv_def pc_of_def)
    next
      case False
      with gate_free show ?thesis
        by (intro deliver_inv_other [OF assms(2)]) (simp_all add: pc_of_def)
    qed
  next
    case (gate_call q p)
    show ?thesis
    proof (cases "k = i")
      case True
      with assms(2) gate_call k show ?thesis
        by (auto simp add: deliver_inv_def pc_of_def)
    next
      case False
      with gate_call show ?thesis
        by (intro deliver_inv_other [OF assms(2)]) (simp_all add: pc_of_def)
    qed
  next
    case (spend q p)
    show ?thesis
    proof (cases "k = i")
      case True
      with assms(2) spend k show ?thesis
        by (auto simp add: deliver_inv_def pc_of_def)
    next
      case False
      with spend show ?thesis
        by (intro deliver_inv_other [OF assms(2)]) (simp_all add: pc_of_def)
    qed
  next
    case (exec q err s1)
    have tr: "trace s' = trace s @ [Executed k q err]"
      and d: "disp s' = (disp s)[k := after_exec w q err]"
      using exec(3) by simp_all
    show ?thesis
    proof (cases "k = i")
      case True
      with assms(2) exec(1) k have R: "delivered i (trace s) = answered i (trace s)"
        by (simp add: deliver_inv_def pc_of_def)
      from True d k have p: "pc_of s' i = after_exec w q err"
        by (simp add: pc_of_def)
      show ?thesis
        by (cases rule: after_exec_cases [of w q err])
           (use R tr p True in \<open>auto simp add: deliver_inv_def\<close>)
    next
      case False
      with tr d show ?thesis
        by (intro deliver_inv_other [OF assms(2)]) (simp_all add: pc_of_def)
    qed
  next
    case (sleep T)
    show ?thesis
    proof (cases "k = i")
      case True
      with assms(2) sleep k show ?thesis
        by (auto simp add: deliver_inv_def pc_of_def)
    next
      case False
      with sleep show ?thesis
        by (intro deliver_inv_other [OF assms(2)]) (simp_all add: pc_of_def)
    qed
  next
    case drain_nil
    with assms(2) deliver_inv_cong [of s' s i] show ?thesis
      by (simp add: pc_of_def)
  next
    case (drain b)
    show ?thesis
    proof (cases "k = i")
      case True
      with assms(2) drain k show ?thesis
        by (auto simp add: deliver_inv_def pc_of_def)
    next
      case False
      with drain show ?thesis
        by (intro deliver_inv_other [OF assms(2)]) (simp_all add: pc_of_def)
    qed
  qed
next
  case quiet
  with assms(2) deliver_inv_cong [of s' s i] show ?thesis
    by (simp add: pc_of_def)
qed

lemma deliver_boot: "deliver_inv (boot st) i"
  by (simp add: deliver_inv_def boot_def pc_of_def)

text \<open>Every result that is written carries a nil error.\<close>

lemma results_nil_step:
  assumes "\<forall>k. deliver_inv s k"
    "list_all (\<lambda>r. response_err r = None) (results_on ch (trace s))"
    "step w l s = Some s'"
  shows "list_all (\<lambda>r. response_err r = None) (results_on ch (trace s'))"
  using assms(3)
proof (cases rule: step_cases)
  case (New a b)
  with assms(2) show ?thesis by (simp add: NewTwitterApi_def Let_def)
next
  case (Sync g h)
  from Sync(2) show ?thesis
  proof (cases rule: sync_cases)
    case (submit j i' k q)
    with assms(2) show ?thesis by simp
  next
    case (requeue k m q T)
    with assms(2) show ?thesis by simp
  next
    case (deliver k j q err q')
    from assms(1) have "deliver_inv s k" by simp
    with deliver(4,6) have "err = None"
      by (simp add: deliver_inv_def pc_of_def)
    with deliver(9) assms(2) show ?thesis by simp
  qed
next
  case (Tau k)
  from Tau(2) show ?thesis
    by (cases rule: throttledQuery_step_cases) (use assms(2) in simp_all)
next
  case quiet
  with assms(2) show ?thesis by simp
qed

lemma results_nil_run:
  "(\<forall>k. deliver_inv (run w ls (boot st)) k)
   \<and> list_all (\<lambda>r. response_err r = None) (results_on ch (trace (run w ls (boot st))))"
proof (rule run_induct
        [where P = "\<lambda>s. (\<forall>k. deliver_inv s k)
                      \<and> list_all (\<lambda>r. response_err r = None) (results_on ch (trace s))"])
  show "(\<forall>k. deliver_inv (boot st) k)
    \<and> list_all (\<lambda>r. response_err r = None) (results_on ch (trace (boot st)))"
    by (simp add: deliver_boot) (simp add: boot_def)
next
  fix l and s s' :: "'a state"
  assume "wf s" and P: "(\<forall>k. deliver_inv s k)
    \<and> list_all (\<lambda>r. response_err r = None) (results_on ch (trace s))"
    and st: "step w l s = Some s'"
  then have "\<forall>k. deliver_inv s' k"
    by (auto intro: deliver_step)
  moreover from P st have "list_all (\<lambda>r. response_err r = None) (results_on ch (trace s'))"
    by (intro results_nil_step [of s ch w l s']) simp_all
  ultimately show "(\<forall>k. deliver_inv s' k)
    \<and> list_all (\<lambda>r. response_err r = None) (results_on ch (trace s'))"
    by simp
next
  show "wf (boot st)" by (rule wf_boot)
qed

text \<open>The send of a result completes with the receive of the caller that waits for it.\<close>

lemma deliver_enabled:
  assumes "\<not> crashed s" "i < length (apis s)" "i < length (disp s)"
    "disp s ! i = L_deliver q err" "j < length (callers s)" "callers s ! j = Waiting q"
  shows "step w (Sync (D i) (U j)) s =
           Some (s\<lparr>callers := (callers s)[j := Returned \<lparr>response_data = data q, response_err = err\<rparr>],
                   disp := (disp s)[i := L_recv],
                   trace := trace s @ [Delivered i q \<lparr>response_data = data q, response_err = err\<rparr>]\<rparr>)"
  using assms
  by (simp add: step_def sync_def offer_of_def disp_offer_def caller_offer_def sent_def
      took_response_def)

text \<open>
  A caller that waits on a result channel which no goroutine will write any more stays there.
\<close>

lemma waiting_step:
  assumes "forgotten (response_ch q) s" "j < length (callers s)" "callers s ! j = Waiting q"
    "step w l s = Some s'"
  shows "j < length (callers s') \<and> callers s' ! j = Waiting q"
proof (cases l)
  case (New a b)
  with assms show ?thesis
    by (auto simp add: step_def NewTwitterApi_def Let_def split: if_splits)
next
  case (Request k u f d m)
  with assms show ?thesis
    by (auto simp add: step_def nth_append split: if_splits)
next
  case (Sync g h)
  with assms(4) have "sync g h s = Some s'" by (simp add: step_def split: if_splits)
  then show ?thesis
  proof (cases rule: sync_cases)
    case (submit j' i' k q')
    with assms(2,3) show ?thesis by (auto simp add: nth_list_update)
  next
    case (requeue k m q' T)
    with assms(2,3) show ?thesis by simp
  next
    case (deliver k j' q0 err q')
    from assms(1) have "list_all (\<lambda>p. pc_chan p \<noteq> Some (response_ch q)) (disp s)"
      by (simp add: forgotten_def)
    from list_all_nth [OF this deliver(4)] deliver(6)
    have "response_ch q0 \<noteq> response_ch q" by simp
    with deliver(7,8) assms(3) have "j' \<noteq> j" by auto
    with deliver(9) assms(2,3) show ?thesis by simp
  qed
next
  case (Tau k)
  with assms(4) have "throttledQuery_step w k s = Some s'"
    by (simp add: step_def split: if_splits)
  from throttledQuery_step_shape(5) [OF this] assms(2,3) show ?thesis by simp
qed (use assms in \<open>auto simp add: step_def SetConsumerKey_def SetConsumerSecret_def
       split: if_splits option.splits sum.splits\<close>)

lemma waiting_run:
  "forgotten (response_ch q) s \<Longrightarrow> j < length (callers s) \<Longrightarrow> callers s ! j = Waiting q \<Longrightarrow>
     callers (run w ls s) ! j = Waiting q \<and> results_on (response_ch q) (trace (run w ls s)) = []"
proof (induction ls arbitrary: s)
  case Nil
  then show ?case by (simp add: forgotten_def)
next
  case (Cons l ls)
  show ?case
  proof (cases "step w l s")
    case None
    with Cons show ?thesis by simp
  next
    case (Some s')
    from forgotten_step [OF Cons.prems(1) Some] waiting_step [OF Cons.prems Some]
    have "forgotten (response_ch q) s'" "j < length (callers s')" "callers s' ! j = Waiting q"
      by simp_all
    from Cons.IH [OF this] Some show ?thesis by simp
  qed
qed

lemma returned_step:
  assumes "j < length (callers s)" "callers s ! j = Returned r" "step w l s = Some s'"
  shows "j < length (callers s') \<and> callers s' ! j = Returned r"
proof (cases l)
  case (New a b)
  with assms show ?thesis
    by (auto simp add: step_def NewTwitterApi_def Let_def split: if_splits)
next
  case (Request k u f d m)
  with assms show ?thesis
    by (auto simp add: step_def nth_append split: if_splits)
next
  case (Sync g h)
  with assms(3) have "sync g h s = Some s'" by (simp add: step_def split: if_splits)
  then show ?thesis
  proof (cases rule: sync_cases)
    case (submit j' i' k q')
    with assms(1,2) show ?thesis by (auto simp add: nth_list_update)
  next
    case (requeue k m q' T)
    with assms(1,2) show ?thesis by simp
  next
    case (deliver k j' q0 err q')
    with assms(1,2) show ?thesis by (auto simp add: nth_list_update)
  qed
next
  case (Tau k)
  with assms(3) have "throttledQuery_step w k s = Some s'"
    by (simp add: step_def split: if_splits)
  from throttledQuery_step_shape(5) [OF this] assms(1,2) show ?thesis by simp
qed (use assms in \<open>auto simp add: step_def SetConsumerKey_def SetConsumerSecret_def
       split: if_splits option.splits sum.splits\<close>)

lemma returned_run:
  "j < length (callers s) \<Longrightarrow> callers s ! j = Returned r \<Longrightarrow>
     callers (run w ls s) ! j = Returned r"
proof (induction ls arbitrary: s)
  case Nil
  then show ?case by simp
next
  case (Cons l ls)
  show ?case
  proof (cases "step w l s")
    case None
    with Cons show ?thesis by simp
  next
    case (Some s')
    from returned_step [OF Cons.prems Some]
    have "j < length (callers s')" "callers s' ! j = Returned r"
      by simp_all
    from Cons.IH [OF this] Some show ?thesis by simp
  qed
qed

lemma answered_subseq: "subseq (answered i es) (executed i es)"
  by (induction es) (auto split: event.splits)

lemma ok_then_bad_forgotten:
  "forgotten (response_ch bad_query) (run demo ok_then_bad demo_boot)"
  unfolding forgotten_def by code_simp

text \<open>
  C7. In every execution from the start of the process, for every client: what its dispatcher
  has received is what callers have put into its queue, in that order; the queries are executed
  in that order, one at a time; the signed calls seen by the transport are those of the executed
  queries with a supported method, in the order of execution; and the results delivered are
  those of the queries executed with a nil error, in the order of execution, the last of them
  possibly still to be sent. A dispatcher that stands at the send of a result, with the caller at
  its receive, completes the delivery; every result ever written carries a nil error. A query
  whose execution ends in an error gets no result at all. So with rate limiting disabled and no
  rate-limit rejection the results are not all delivered: a caller whose first request is
  answered and whose second meets a body that does not decode receives the first result and
  then waits; whatever happens next, nothing is written to the result channel of the second
  request and the caller stays at its receive, so it never makes a third request. (A rate-limited
  query is never put back behind later arrivals: see C3.)
\<close>

theorem dispatch_order_and_delivery:
  "received i (trace (run w ls (boot st))) = enqueued i (trace (run w ls (boot st)))
   \<and> prefix (executed i (trace (run w ls (boot st)))) (received i (trace (run w ls (boot st))))
   \<and> length (received i (trace (run w ls (boot st))))
        \<le> Suc (length (executed i (trace (run w ls (boot st)))))
   \<and> subseq (delivered i (trace (run w ls (boot st)))) (executed i (trace (run w ls (boot st))))
   \<and> map call_sig (calls (run w ls (boot st))) = sent_out (trace (run w ls (boot st)))
   \<and> (case pc_of (run w ls (boot st)) i of
        L_deliver q err \<Rightarrow>
          err = None
          \<and> answered i (trace (run w ls (boot st))) = delivered i (trace (run w ls (boot st))) @ [q]
      | _ \<Rightarrow> delivered i (trace (run w ls (boot st))) = answered i (trace (run w ls (boot st))))
   \<and> list_all (\<lambda>r. response_err r = None) (results_on ch (trace (run w ls (boot st))))
   \<and> (\<not> crashed s \<and> i < length (apis s) \<and> i < length (disp s) \<and> disp s ! i = L_deliver q err
        \<and> j < length (callers s) \<and> callers s ! j = Waiting q \<longrightarrow>
      step w (Sync (D i) (U j)) s =
        Some (s\<lparr>callers := (callers s)[j := Returned \<lparr>response_data = data q, response_err = err\<rparr>],
                disp := (disp s)[i := L_recv],
                trace := trace s @ [Delivered i q \<lparr>response_data = data q, response_err = err\<rparr>]\<rparr>))
   \<and> trace (run demo ok_then_bad demo_boot) =
       [Enqueued 0 first_query, Received 0 first_query, Executed 0 first_query None,
        Delivered 0 first_query \<lparr>response_data = 0, response_err = None\<rparr>,
        Enqueued 0 bad_query, Received 0 bad_query,
        Executed 0 bad_query (Some (DecodeError ''unexpected end of JSON input''))]
   \<and> disp (run demo ok_then_bad demo_boot) = [L_recv]
   \<and> bucket (apis (run demo ok_then_bad demo_boot) ! 0) = None
   \<and> callers (run demo ls' (run demo ok_then_bad demo_boot)) ! 0 =
       Returned \<lparr>response_data = 0, response_err = None\<rparr>
   \<and> callers (run demo ls' (run demo ok_then_bad demo_boot)) ! 1 = Waiting bad_query
   \<and> results_on (response_ch bad_query) (trace (run demo ls' (run demo ok_then_bad demo_boot))) = []"
proof -
  let ?s = "run w ls (boot st)"
  have "fifo_inv ?s i"
    by (rule fifo_run [OF wf_boot fifo_boot])
  note order = fifo_inv_order [OF this]
  have enq: "received i (trace ?s) = enqueued i (trace ?s)"
    by (rule run_induct [where P = "\<lambda>s. received i (trace s) = enqueued i (trace s)"])
       (simp_all add: enq_step wf_boot, simp add: boot_def)
  have out: "map call_sig (calls ?s) = sent_out (trace ?s)"
    by (rule run_induct [where P = "\<lambda>s. map call_sig (calls s) = sent_out (trace s)"])
       (simp_all add: calls_step wf_boot, simp add: boot_def)
  from results_nil_run [of w ls st ch]
  have dl: "case pc_of ?s i of
        L_deliver q err \<Rightarrow> err = None \<and> answered i (trace ?s) = delivered i (trace ?s) @ [q]
      | _ \<Rightarrow> delivered i (trace ?s) = answered i (trace ?s)"
    and nil: "list_all (\<lambda>r. response_err r = None) (results_on ch (trace ?s))"
    by (simp_all add: deliver_inv_def)
  have en: "\<not> crashed s \<and> i < length (apis s) \<and> i < length (disp s) \<and> disp s ! i = L_deliver q err
        \<and> j < length (callers s) \<and> callers s ! j = Waiting q \<longrightarrow>
      step w (Sync (D i) (U j)) s =
        Some (s\<lparr>callers := (callers s)[j := Returned \<lparr>response_data = data q, response_err = err\<rparr>],
                disp := (disp s)[i := L_recv],
                trace := trace s @ [Delivered i q \<lparr>response_data = data q, response_err = err\<rparr>]\<rparr>)"
    using deliver_enabled [of s i q err j w] by blast
  let ?z = "run demo ok_then_bad demo_boot"
  have tr: "trace ?z =
       [Enqueued 0 first_query, Received 0 first_query, Executed 0 first_query None,
        Delivered 0 first_query \<lparr>response_data = 0, response_err = None\<rparr>,
        Enqueued 0 bad_query, Received 0 bad_query,
        Executed 0 bad_query (Some (DecodeError ''unexpected end of JSON input''))]"
    by code_simp
  have d: "disp ?z = [L_recv]" by code_simp
  have b: "bucket (apis ?z ! 0) = None" by code_simp
  have c: "callers ?z = [Returned \<lparr>response_data = 0, response_err = None\<rparr>, Waiting bad_query]"
    by code_simp
  from c waiting_run [OF ok_then_bad_forgotten, of 1 demo ls']
  have w1: "callers (run demo ls' ?z) ! 1 = Waiting bad_query"
    and r1: "results_on (response_ch bad_query) (trace (run demo ls' ?z)) = []"
    by simp_all
  have w0: "callers (run demo ls' ?z) ! 0 = Returned \<lparr>response_data = 0, response_err = None\<rparr>"
    using c returned_run [where j = 0 and s = "?z" and w = demo and ls = ls'
        and r = "\<lparr>response_data = 0, response_err = None\<rparr>"]
    by simp
  from order enq out dl nil en tr d b w0 w1 r1 show ?thesis
    by blast
qed

theorem dispatch_order_and_delivery_witness:
  "enqueued 0 (trace (run demo two_calls demo_boot)) = [first_query, second_query]
   \<and> received 0 (trace (run demo two_calls demo_boot)) = [first_query, second_query]
   \<and> answered 0 (trace (run demo two_calls demo_boot)) = [first_query, second_query]
   \<and> delivered 0 (trace (run demo two_calls demo_boot)) = [first_query, second_query]
   \<and> subseq [first_query, second_query] (executed 0 (trace (run demo two_calls demo_boot)))
   \<and> map call_sig (calls (run demo two_calls demo_boot)) = [(GET, ''/ok'', []), (POST, ''/ok'', [])]
   \<and> callers (run demo two_calls demo_boot) =
        [Returned \<lparr>response_data = 0, response_err = None\<rparr>,
         Returned \<lparr>response_data = 1, response_err = None\<rparr>]
   \<and> callers (run demo (butlast two_calls @ [Sync (D 0) (U 1)]) demo_boot) ! 1 =
        Returned \<lparr>response_data = 1, response_err = None\<rparr>
   \<and> callers (run demo [Request 0 ''/ok'' [] 2 const_GET, Sync (U 2) (D 0), Tau 0, Tau 0,
                         Sync (D 0) (U 2), Sync (D 0) (U 1)]
                (run demo ok_then_bad demo_boot)) =
        [Returned \<lparr>response_data = 0, response_err = None\<rparr>, Waiting bad_query,
         Returned \<lparr>response_data = 2, response_err = None\<rparr>]"
proof -
  let ?s = "run demo two_calls demo_boot"
  let ?p = "run demo (butlast two_calls) demo_boot"
  have e: "enqueued 0 (trace ?s) = [first_query, second_query]"
    by code_simp
  have x: "executed 0 (trace ?s) = [first_query, second_query]"
    by code_simp
  have o: "sent_out (trace ?s) = [(GET, ''/ok'', []), (POST, ''/ok'', [])]"
    by code_simp
  have p: "pc_of ?s 0 = L_recv"
    by code_simp
  have c: "callers ?s =
        [Returned \<lparr>response_data = 0, response_err = None\<rparr>,
         Returned \<lparr>response_data = 1, response_err = None\<rparr>]"
    by code_simp
  have pre: "\<not> crashed ?p" "0 < length (apis ?p)" "0 < length (disp ?p)"
    "disp ?p ! 0 = L_deliver second_query None" "1 < length (callers ?p)"
    "callers ?p ! 1 = Waiting second_query" "data second_query = 1"
    "length (callers ?p) = 2"
    by code_simp+
  have far: "callers (run demo [Request 0 ''/ok'' [] 2 const_GET, Sync (U 2) (D 0), Tau 0, Tau 0,
                         Sync (D 0) (U 2), Sync (D 0) (U 1)]
                (run demo ok_then_bad demo_boot)) =
        [Returned \<lparr>response_data = 0, response_err = None\<rparr>, Waiting bad_query,
         Returned \<lparr>response_data = 2, response_err = None\<rparr>]"
    by code_simp
  note inst = dispatch_order_and_delivery
    [where i = 0 and w = demo and ls = two_calls and st = "\<lambda>r. []" and s = ?p
       and q = second_query and err = None and j = 1]
  from inst e x p have A: "received 0 (trace ?s) = [first_query, second_query]"
    "delivered 0 (trace ?s) = answered 0 (trace ?s)"
    "map call_sig (calls ?s) = sent_out (trace ?s)"
    "prefix (executed 0 (trace ?s)) (received 0 (trace ?s))"
    by (simp_all add: demo_boot_def)
  from inst pre have st: "step demo (Sync (D 0) (U 1)) ?p =
      Some (?p\<lparr>callers := (callers ?p)[1 := Returned \<lparr>response_data = 1, response_err = None\<rparr>],
               disp := (disp ?p)[0 := L_recv],
               trace := trace ?p @ [Delivered 0 second_query \<lparr>response_data = 1, response_err = None\<rparr>]\<rparr>)"
    by simp
  have B: "callers (run demo (butlast two_calls @ [Sync (D 0) (U 1)]) demo_boot) ! 1 =
        Returned \<lparr>response_data = 1, response_err = None\<rparr>"
    using pre(5) by (simp only: run_snoc st option.case) simp
  have an: "answered 0 (trace ?s) = [first_query, second_query]"
    by code_simp
  from A an e x o c B far show ?thesis by simp
qed


section \<open>A new client\<close>

lemma nil_bucket_step:
  assumes "step w l s = Some s'" "n < length (apis s)" "bucket (apis s ! n) = None"
    "\<And>q p. pc_of s n \<noteq> L_spend q p" "\<And>r k. l \<noteq> Enable n r k"
  shows "n < length (apis s') \<and> bucket (apis s' ! n) = None
         \<and> (\<forall>q p. pc_of s' n \<noteq> L_spend q p)
         \<and> spent n (trace s') = spent n (trace s)"
proof -
  have pc: "\<forall>q p. pc_of s' n \<noteq> L_spend q p"
    using spend_entered [OF assms(1), of n] assms(3,4) by fastforce
  have "n < length (apis s') \<and> bucket (apis s' ! n) = None
         \<and> spent n (trace s') = spent n (trace s)"
  proof (cases l)
    case (New a b)
    with assms(1-3) show ?thesis
      by (auto simp add: step_def NewTwitterApi_def Let_def nth_append split: if_splits)
  next
    case (Sync g h)
    with assms(1) have "sync g h s = Some s'" by (simp add: step_def split: if_splits)
    then show ?thesis
      by (cases rule: sync_cases) (use assms(2,3) in simp_all)
  next
    case (Tau k)
    with assms(1) have st: "throttledQuery_step w k s = Some s'"
      by (simp add: step_def split: if_splits)
    note k = throttledQuery_step_index [OF st]
    from st show ?thesis
    proof (cases rule: throttledQuery_step_cases)
      case (exec q err s1)
      with assms(2,3) execQuery_frame(1) [OF exec(2)] show ?thesis by simp
    next
      case (spend q p)
      with assms(4) [of q p] k have "k \<noteq> n" by (auto simp add: pc_of_def)
      with spend assms(2,3) show ?thesis by simp
    qed (use assms(2,3) k in auto)
  next
    case (Enable k r m)
    with assms(5) [of r m] have "k \<noteq> n" by blast
    with Enable assms(1-3) show ?thesis
      by (auto simp add: step_def EnableRateLimiting_def split: if_splits)
  qed (use assms(1-3) in \<open>auto simp add: step_def SetConsumerKey_def SetConsumerSecret_def
         DisableRateLimiting_def nth_list_update
       split: if_splits option.splits sum.splits\<close>)
  with pc show ?thesis by simp
qed

lemma nil_bucket_run:
  assumes "n < length (apis s)" "bucket (apis s ! n) = None"
    "\<And>q p. pc_of s n \<noteq> L_spend q p" "\<And>r k. Enable n r k \<notin> set ls"
  shows "n < length (apis (run w ls s)) \<and> bucket (apis (run w ls s) ! n) = None
         \<and> spent n (trace (run w ls s)) = spent n (trace s)"
  using assms
proof (induction ls arbitrary: s)
  case Nil
  then show ?case by simp
next
  case (Cons l ls)
  show ?case
  proof (cases "step w l s")
    case None
    with Cons show ?thesis by simp
  next
    case (Some s')
    from Cons.prems(4) have "\<And>r k. l \<noteq> Enable n r k" by auto
    from nil_bucket_step [OF Some Cons.prems(1,2,3) this] Cons.IH [of s'] Cons.prems(4) Some
    show ?thesis by simp
  qed
qed

lemma spent_fresh_step:
  assumes "\<forall>k\<ge>length (disp s). spent k (trace s) = 0" "step w l s = Some s'"
  shows "\<forall>k\<ge>length (disp s'). spent k (trace s') = 0"
  using assms(2)
proof (cases rule: step_cases)
  case (New a b)
  with assms(1) show ?thesis by (simp add: NewTwitterApi_def Let_def)
next
  case (Sync g h)
  from Sync(2) show ?thesis
    by (cases rule: sync_cases) (use assms(1) in simp_all)
next
  case (Tau k)
  note k = throttledQuery_step_index [OF Tau(2)]
  from Tau(2) show ?thesis
  proof (cases rule: throttledQuery_step_cases)
    case (exec q err s1)
    with assms(1) show ?thesis by simp
  qed (use assms(1) k in auto)
next
  case quiet
  with assms(1) show ?thesis by simp
qed

lemma spent_fresh:
  "\<forall>k\<ge>length (disp (run w ls (boot st))). spent k (trace (run w ls (boot st))) = 0"
  by (rule run_induct [where P = "\<lambda>s. \<forall>k\<ge>length (disp s). spent k (trace s) = 0"])
     (simp_all add: wf_boot spent_fresh_step, simp add: boot_def spent_def)

lemma only_own_dispatcher_receives:
  assumes "wf s" "NewTwitterApi a b s = (n, s')"
  shows "offer_of s' g = RecvQ (queryQueue (apis s' ! n)) \<longleftrightarrow> g = D n"
proof -
  from assms(2) have n: "n = length (apis s)"
    and s': "s' = s\<lparr>nchan := Suc (nchan s),
                   apis := apis s @ [\<lparr>Credentials = \<lparr>Token = a, Secret = b\<rparr>,
                                     queryQueue = nchan s, bucket = None\<rparr>],
                   disp := disp s @ [L_recv]\<rparr>"
    by (auto simp add: NewTwitterApi_def Let_def)
  from assms(1) have len: "length (disp s) = length (apis s)"
    and old: "\<And>j. j < length (apis s) \<Longrightarrow> queryQueue (apis s ! j) < nchan s"
    by (simp_all add: wf_def queues_def list_all_length)
  show ?thesis
  proof (cases g)
    case (D j)
    show ?thesis
    proof (cases "j < length (apis s)")
      case True
      with old [of j] D n s' len show ?thesis
        by (auto simp add: offer_of_def disp_offer_def nth_append split: pc.splits)
    next
      case False
      with D n s' len show ?thesis
        by (auto simp add: offer_of_def disp_offer_def nth_append)
    qed
  next
    case (U j)
    with n s' show ?thesis
      by (auto simp add: offer_of_def caller_offer_def split: caller.splits)
  qed
qed

text \<open>
  C10. In any state the process can reach, \<^verbatim>\<open>NewTwitterApi\<close> returns a client with the given
  credentials, a queue made at that moment and no bucket; its goroutine waits at the head of the
  loop, and it is the one goroutine of the process that offers to receive on that queue. As long
  as \<^verbatim>\<open>EnableRateLimiting\<close> is not called on this client, its bucket stays absent and its
  dispatcher spends no token.
\<close>

theorem NewTwitterApi_starts_unthrottled:
  "NewTwitterApi a b (run w ls0 (boot st)) = (n, s') \<longrightarrow>
     apis s' ! n = \<lparr>Credentials = \<lparr>Token = a, Secret = b\<rparr>,
                    queryQueue = nchan (run w ls0 (boot st)), bucket = None\<rparr>
     \<and> length (apis s') = Suc n \<and> disp s' ! n = L_recv
     \<and> (\<forall>g. offer_of s' g = RecvQ (queryQueue (apis s' ! n)) \<longleftrightarrow> g = D n)
     \<and> ((\<forall>r k. Enable n r k \<notin> set ls) \<longrightarrow>
          bucket (apis (run w ls s') ! n) = None \<and> spent n (trace (run w ls s')) = 0)"
proof
  assume new: "NewTwitterApi a b (run w ls0 (boot st)) = (n, s')"
  let ?s = "run w ls0 (boot st)"
  have wf: "wf ?s" by (simp add: wf_run wf_boot)
  then have len: "length (disp ?s) = length (apis ?s)" by (simp add: wf_def)
  from new have n: "n = length (apis ?s)"
    and s': "s' = ?s\<lparr>nchan := Suc (nchan ?s),
                   apis := apis ?s @ [\<lparr>Credentials = \<lparr>Token = a, Secret = b\<rparr>,
                                     queryQueue = nchan ?s, bucket = None\<rparr>],
                   disp := disp ?s @ [L_recv]\<rparr>"
    by (auto simp add: NewTwitterApi_def Let_def)
  from n s' len have A: "apis s' ! n = \<lparr>Credentials = \<lparr>Token = a, Secret = b\<rparr>,
                    queryQueue = nchan ?s, bucket = None\<rparr>"
    "length (apis s') = Suc n" "disp s' ! n = L_recv"
    by (simp_all add: nth_append)
  have B: "\<forall>g. offer_of s' g = RecvQ (queryQueue (apis s' ! n)) \<longleftrightarrow> g = D n"
    using only_own_dispatcher_receives [OF wf new] by blast
  have C: "(\<forall>r k. Enable n r k \<notin> set ls) \<longrightarrow>
          bucket (apis (run w ls s') ! n) = None \<and> spent n (trace (run w ls s')) = 0"
  proof
    assume ne: "\<forall>r k. Enable n r k \<notin> set ls"
    from spent_fresh [of w ls0 st] n len have "spent n (trace ?s) = 0" by simp
    with s' have z: "spent n (trace s') = 0" by simp
    from A have "n < length (apis s')" "bucket (apis s' ! n) = None" by simp_all
    moreover from n s' len have "\<And>q p. pc_of s' n \<noteq> L_spend q p"
      by (simp add: pc_of_def nth_append)
    ultimately have "n < length (apis (run w ls s')) \<and> bucket (apis (run w ls s') ! n) = None
         \<and> spent n (trace (run w ls s')) = spent n (trace s')"
      using ne by (intro nil_bucket_run) simp_all
    with z
    show "bucket (apis (run w ls s') ! n) = None \<and> spent n (trace (run w ls s')) = 0"
      by simp
  qed
  from A B C show "apis s' ! n = \<lparr>Credentials = \<lparr>Token = a, Secret = b\<rparr>,
                    queryQueue = nchan (run w ls0 (boot st)), bucket = None\<rparr>
     \<and> length (apis s') = Suc n \<and> disp s' ! n = L_recv
     \<and> (\<forall>g. offer_of s' g = RecvQ (queryQueue (apis s' ! n)) \<longleftrightarrow> g = D n)
     \<and> ((\<forall>r k. Enable n r k \<notin> set ls) \<longrightarrow>
          bucket (apis (run w ls s') ! n) = None \<and> spent n (trace (run w ls s')) = 0)"
    by blast
qed

theorem NewTwitterApi_starts_unthrottled_witness:
  "apis (snd (NewTwitterApi ''token'' ''secret'' demo_boot)) ! 0 = demo_api
   \<and> disp (snd (NewTwitterApi ''token'' ''secret'' demo_boot)) ! 0 = L_recv
   \<and> offer_of (snd (NewTwitterApi ''token'' ''secret'' demo_boot)) (D 0) = RecvQ 0
   \<and> bucket (apis (run demo busy (snd (NewTwitterApi ''token'' ''secret'' demo_boot))) ! 0) = None
   \<and> spent 0 (trace (run demo busy (snd (NewTwitterApi ''token'' ''secret'' demo_boot)))) = 0
   \<and> executed 0 (trace (run demo busy (snd (NewTwitterApi ''token'' ''secret'' demo_boot)))) =
        [first_query,
         \<lparr>url = ''/missing'', form = [], data = 1, method = const_POST, response_ch = 2\<rparr>]"
proof -
  have n: "NewTwitterApi ''token'' ''secret'' (run demo [] (boot (\<lambda>r. []))) =
             (0, snd (NewTwitterApi ''token'' ''secret'' demo_boot))"
    by (simp add: NewTwitterApi_def Let_def demo_boot_def boot_def)
  have q: "nchan (run demo [] (boot (\<lambda>r. []))) = 0"
    by (simp add: boot_def)
  have e: "\<forall>r k. Enable 0 r k \<notin> set busy"
    by (simp add: busy_def)
  have x: "executed 0 (trace (run demo busy (snd (NewTwitterApi ''token'' ''secret'' demo_boot)))) =
        [first_query,
         \<lparr>url = ''/missing'', form = [], data = 1, method = const_POST, response_ch = 2\<rparr>]"
    by code_simp
  from NewTwitterApi_starts_unthrottled
         [of "''token''" "''secret''" demo "[]" "\<lambda>r. []" 0
             "snd (NewTwitterApi ''token'' ''secret'' demo_boot)" busy] n e
  have "apis (snd (NewTwitterApi ''token'' ''secret'' demo_boot)) ! 0 =
          \<lparr>Credentials = \<lparr>Token = ''token'', Secret = ''secret''\<rparr>,
           queryQueue = nchan (run demo [] (boot (\<lambda>r. []))), bucket = None\<rparr>
     \<and> disp (snd (NewTwitterApi ''token'' ''secret'' demo_boot)) ! 0 = L_recv
     \<and> offer_of (snd (NewTwitterApi ''token'' ''secret'' demo_boot)) (D 0) =
          RecvQ (queryQueue (apis (snd (NewTwitterApi ''token'' ''secret'' demo_boot)) ! 0))
     \<and> bucket (apis (run demo busy (snd (NewTwitterApi ''token'' ''secret'' demo_boot))) ! 0) = None
     \<and> spent 0 (trace (run demo busy (snd (NewTwitterApi ''token'' ''secret'' demo_boot)))) = 0"
    by blast
  with q x show ?thesis by (simp add: demo_api_def)
qed

end
